theory Spec2Isabelle
  imports Main "HOL-Library.Word"
begin

section \<open>Data model of the conveyor (namespace \<open>multi_task_conveyor\<close>)\<close>

text \<open>
  The engine is a multi-threaded program. It is embedded as a transition system: the
  shared state is a record, and every piece of code that a thread runs without another
  thread being able to observe an intermediate state (a critical section under
  \<open>m_task_queue_mutex\<close> or \<open>m_job_map_mutex\<close>, one atomic operation, one call of a
  client callback) is one step function on that record. A waiting thread is a step that
  \<open>Blocks\<close> in the current state; a dereference of a pointer at which no job object
  lives \<open>Fails\<close>.

  A \<open>JOBID\<close> is the address of the job object (\<open>typedef Job* JOBID\<close>); address 0 is
  \<open>nullptr\<close>.
\<close>

type_synonym JOBID = nat

abbreviation (input) nullptr :: JOBID where
  "nullptr \<equiv> 0"

datatype fault = Length_error | Invalid_pointer | Invalid_argument

datatype 'a outcome = Returns 'a | Blocks | Fails fault

text \<open>
  class \<open>Job\<close>. The two \<open>atomic_flag\<close>s are booleans, \<open>m_conveyor\<close> records whether the
  back pointer has been set, \<open>m_running_tasks\<close> (an \<open>atomic_ulong\<close>) is the count of
  outstanding tasks. The count is a natural number: the decrement is never applied to 0
  in a reachable state (lemma \<open>dec_never_at_zero\<close> below), and the model does not cover
  more than \<open>ULONG_MAX\<close> tasks outstanding at once. \<open>n_tasks\<close> is the client's
  payload: the number of tasks its \<open>process()\<close> pushes (\<open>TASKS\<close> in the demo job).
\<close>

record Job =
  m_is_all_task_pushed :: bool
  m_is_done :: bool
  m_conveyor :: bool
  m_running_tasks :: nat
  n_tasks :: nat

definition Job_ctor :: "nat \<Rightarrow> Job" where
  "Job_ctor n = \<lparr>m_is_all_task_pushed = False, m_is_done = False, m_conveyor = False,
     m_running_tasks = 0, n_tasks = n\<rparr>"

definition is_done :: "Job \<Rightarrow> bool" where
  "is_done j = m_is_done j"

definition inc_task_count :: "Job \<Rightarrow> Job" where
  "inc_task_count j = j\<lparr>m_running_tasks := m_running_tasks j + 1\<rparr>"

definition dec_task_count :: "Job \<Rightarrow> Job" where
  "dec_task_count j = j\<lparr>m_running_tasks := m_running_tasks j - 1\<rparr>"

definition get_task_count :: "Job \<Rightarrow> nat" where
  "get_task_count j = m_running_tasks j"

definition set_conveyor :: "Job \<Rightarrow> Job" where
  "set_conveyor j = j\<lparr>m_conveyor := True\<rparr>"

definition set_all_tasks_pushed :: "Job \<Rightarrow> Job" where
  "set_all_tasks_pushed j = j\<lparr>m_is_all_task_pushed := True\<rparr>"

definition reset :: "Job \<Rightarrow> Job" where
  "reset j = j\<lparr>m_is_all_task_pushed := False, m_is_done := False\<rparr>"

text \<open>class \<open>Task\<close>: a task carries the id of its job. In the queue a task sits behind a
  \<open>unique_ptr<Task>\<close>; the empty pointer, \<open>None\<close>, is the terminator that \<open>terminate\<close>
  enqueues.\<close>

datatype Task = Task (get_id: JOBID)

text \<open>
  A worker thread runs \<open>process_task\<close>. Its program counter: waiting for a task at the
  top of the loop, inside \<open>task->process()\<close>, between the return of \<open>task->process()\<close>
  and \<open>dec_task_count\<close>, or out of the loop. \<open>joined\<close> counts the \<open>join\<close> calls that
  have returned for the thread.
\<close>

datatype wpc = W_idle | W_running Task | W_ran Task | W_exited

record wthread =
  wpc :: wpc
  joined :: nat

text \<open>
  A driver thread runs \<open>process_job\<close> for one activation of a job: inside
  \<open>job->process()\<close> with \<open>k\<close> tasks still to push; at the wait for the counter in
  \<open>wait_until_all_tasks_done\<close>; before the call of \<open>process_after_done\<close>; before
  \<open>m_is_done.test_and_set()\<close>; finished. Driver threads are detached; a finished one
  stays in the list.
\<close>

datatype dpc = D_process nat | D_wait | D_hook | D_set_done | D_finished

record driver =
  d_job :: JOBID
  d_pc :: dpc

text \<open>
  class \<open>MultiTask\<close>. \<open>m_tasks\<close> holds the \<open>std::thread\<close> handles of the workers, as
  indices into \<open>threads\<close>, the worker threads themselves. \<open>heap\<close> holds the job
  objects that are alive. \<open>terminating\<close> says that a thread is inside \<open>terminate\<close>,
  between its locked section and its joins. \<open>task_runs\<close> and \<open>hook_runs\<close> record what
  the client's callbacks did: how many times \<open>Task::process\<close> has returned for a task
  of the job, and how many times the job's \<open>process_after_done\<close> has returned.
\<close>

record state =
  m_jobs_map :: "JOBID \<rightharpoonup> JOBID"
  m_max_tasks :: nat
  m_tasks :: "nat list"
  m_tasks_queue :: "Task option list"
  heap :: "JOBID \<rightharpoonup> Job"
  threads :: "wthread list"
  drivers :: "driver list"
  terminating :: bool
  task_runs :: "JOBID \<Rightarrow> nat"
  hook_runs :: "JOBID \<Rightarrow> nat"

definition and_then :: "'a outcome \<Rightarrow> ('a \<Rightarrow> 'b outcome) \<Rightarrow> 'b outcome" where
  "and_then r f = (case r of Returns x \<Rightarrow> f x | Blocks \<Rightarrow> Blocks | Fails e \<Rightarrow> Fails e)"

definition set_wpc :: "nat \<Rightarrow> wpc \<Rightarrow> state \<Rightarrow> state" where
  "set_wpc i p s = s\<lparr>threads := (threads s)[i := (threads s ! i)\<lparr>wpc := p\<rparr>]\<rparr>"

definition set_dpc :: "nat \<Rightarrow> dpc \<Rightarrow> state \<Rightarrow> state" where
  "set_dpc d p s = s\<lparr>drivers := (drivers s)[d := (drivers s ! d)\<lparr>d_pc := p\<rparr>]\<rparr>"

section \<open>\<open>MultiTask::init\<close>\<close>

text \<open>
  \<open>int task_threads_count = (task_threads == 0 ? thread::hardware_concurrency() - 1 :
  task_threads)\<close>: both branches are \<open>unsigned int\<close>, so the subtraction wraps, and the
  result is converted to \<open>int\<close>. \<open>hardware_concurrency()\<close> is a parameter.
\<close>

definition task_threads_count :: "32 word \<Rightarrow> 32 word \<Rightarrow> int" where
  "task_threads_count task_threads hardware_concurrency =
     (let c = sint (if task_threads = 0 then hardware_concurrency - 1 else task_threads)
      in if c = 0 then c + 1 else c)"

definition emplace_back_thread :: "state \<Rightarrow> state" where
  "emplace_back_thread s =
     s\<lparr>m_tasks := m_tasks s @ [length (threads s)],
       threads := threads s @ [\<lparr>wpc = W_idle, joined = 0\<rparr>]\<rparr>"

fun spawn_workers :: "nat \<Rightarrow> state \<Rightarrow> state" where
  "spawn_workers 0 s = s"
| "spawn_workers (Suc k) s = spawn_workers k (emplace_back_thread s)"

definition empty_engine :: "nat \<Rightarrow> state" where
  "empty_engine max_tasks =
     \<lparr>m_jobs_map = Map.empty, m_max_tasks = max_tasks, m_tasks = [], m_tasks_queue = [],
      heap = Map.empty, threads = [], drivers = [], terminating = False,
      task_runs = (\<lambda>_. 0), hook_runs = (\<lambda>_. 0)\<rparr>"

text \<open>
  \<open>m_tasks.reserve(task_threads_count)\<close> converts the \<open>int\<close> to \<open>size_t\<close>; a negative
  count becomes a size above \<open>max_size()\<close>, and \<open>reserve\<close> throws \<open>std::length_error\<close>
  before any thread is created.
\<close>

definition init :: "32 word \<Rightarrow> 32 word \<Rightarrow> 32 word \<Rightarrow> state outcome" where
  "init task_threads max_tasks hardware_concurrency =
     (let n = task_threads_count task_threads hardware_concurrency in
      if n < 0 then Fails Length_error
      else Returns (spawn_workers (nat n) (empty_engine (unat max_tasks))))"

section \<open>Tasks: \<open>push_task\<close> and the worker loop \<open>process_task\<close>\<close>

text \<open>
  \<open>push_task\<close> is one critical section. \<open>if (m_max_tasks && m_tasks_queue.size() ==
  m_max_tasks) m_task_done.wait(lk, size < m_max_tasks)\<close>: the caller waits while the
  queue is at capacity. Then \<open>task->get_id()->inc_task_count()\<close> and \<open>push_back\<close>.
\<close>

definition push_task :: "state \<Rightarrow> Task \<Rightarrow> state outcome" where
  "push_task s task =
     (if m_max_tasks s \<noteq> 0 \<and> length (m_tasks_queue s) = m_max_tasks s then Blocks
      else case heap s (get_id task) of
             None \<Rightarrow> Fails Invalid_pointer
           | Some j \<Rightarrow>
               Returns (s\<lparr>heap := (heap s)(get_id task \<mapsto> inc_task_count j),
                          m_tasks_queue := m_tasks_queue s @ [Some task]\<rparr>))"

text \<open>The client's \<open>Task::process()\<close>: the model records that it has run.\<close>

definition Task_process :: "Task \<Rightarrow> state \<Rightarrow> state" where
  "Task_process task s =
     s\<lparr>task_runs := (task_runs s)(get_id task := task_runs s (get_id task) + 1)\<rparr>"

text \<open>
  One step of worker thread \<open>i\<close> in the loop of \<open>process_task\<close>:
  \<^item> at the top, under the lock: wait until the queue is not empty; if the front is the
    empty pointer, leave the loop (the terminator stays in the queue); otherwise move
    the front task out and \<open>pop_front\<close>;
  \<^item> \<open>task->process()\<close>;
  \<^item> \<open>task->get_id()->dec_task_count()\<close> (and \<open>m_task_done.notify_all()\<close>).
\<close>

definition process_task :: "nat \<Rightarrow> state \<Rightarrow> state outcome" where
  "process_task i s =
     (case wpc (threads s ! i) of
        W_idle \<Rightarrow>
          (case m_tasks_queue s of
             [] \<Rightarrow> Blocks
           | None # _ \<Rightarrow> Returns (set_wpc i W_exited s)
           | Some task # rest \<Rightarrow> Returns (set_wpc i (W_running task) (s\<lparr>m_tasks_queue := rest\<rparr>)))
      | W_running task \<Rightarrow> Returns (set_wpc i (W_ran task) (Task_process task s))
      | W_ran task \<Rightarrow>
          (case heap s (get_id task) of
             None \<Rightarrow> Fails Invalid_pointer
           | Some j \<Rightarrow>
               Returns (set_wpc i W_idle (s\<lparr>heap := (heap s)(get_id task \<mapsto> dec_task_count j)\<rparr>)))
      | W_exited \<Rightarrow> Blocks)"

section \<open>Jobs: \<open>push_job\<close>, \<open>pop_job\<close>, \<open>restart_job\<close>, the checks, and the driver \<open>process_job\<close>\<close>

text \<open>\<open>thread job_thread(&MultiTask::process_job, this, job_ptr); job_thread.detach()\<close>:
  a new driver, at the call of the job's \<open>process()\<close>, which will push \<open>n\<close> tasks.\<close>

definition start_driver :: "JOBID \<Rightarrow> nat \<Rightarrow> state \<Rightarrow> state" where
  "start_driver job n s = s\<lparr>drivers := drivers s @ [\<lparr>d_job = job, d_pc = D_process n\<rparr>]\<rparr>"

text \<open>
  \<open>push_job(unique_ptr<T>&& job)\<close>. The result is the new state, the returned pointer,
  and what the caller's \<open>unique_ptr\<close> holds afterwards (\<open>try_emplace\<close> moves from its
  argument only when it inserts). \<open>job->set_conveyor(this)\<close> comes before the lookup.
  Both exits \<open>return job_ptr\<close>.
\<close>

definition push_job :: "state \<Rightarrow> JOBID \<Rightarrow> (state \<times> JOBID \<times> JOBID) outcome" where
  "push_job s job =
     (case heap s job of
        None \<Rightarrow> Fails Invalid_pointer
      | Some j \<Rightarrow>
          (let s1 = s\<lparr>heap := (heap s)(job \<mapsto> set_conveyor j)\<rparr> in
           if m_jobs_map s1 job \<noteq> None then Returns (s1, job, job)
           else Returns (start_driver job (n_tasks j)
                           (s1\<lparr>m_jobs_map := (m_jobs_map s1)(job \<mapsto> job)\<rparr>), job, nullptr)))"

text \<open>\<open>pop_job\<close>: \<open>m_jobs_map.extract(jobid)\<close>; the result is the owning pointer, or the
  empty pointer when the key is absent.\<close>

definition pop_job :: "state \<Rightarrow> JOBID \<Rightarrow> state \<times> JOBID" where
  "pop_job s jobid =
     (case m_jobs_map s jobid of
        None \<Rightarrow> (s, nullptr)
      | Some p \<Rightarrow> (s\<lparr>m_jobs_map := (m_jobs_map s)(jobid := None)\<rparr>, p))"

definition restart_job :: "state \<Rightarrow> JOBID \<Rightarrow> state outcome" where
  "restart_job s jobid =
     (if jobid = nullptr then Returns s
      else case heap s jobid of
             None \<Rightarrow> Fails Invalid_pointer
           | Some j \<Rightarrow>
               Returns (start_driver jobid (n_tasks j) (s\<lparr>heap := (heap s)(jobid \<mapsto> reset j)\<rparr>)))"

definition check_job_is_done :: "state \<Rightarrow> JOBID \<Rightarrow> bool outcome" where
  "check_job_is_done s jobid =
     (if jobid = nullptr then Returns True
      else case heap s jobid of
             None \<Rightarrow> Fails Invalid_pointer
           | Some j \<Rightarrow> Returns (get_task_count j = 0))"

text \<open>\<open>wait_job_done\<close>: \<open>jobid->wait_until_done()\<close> is \<open>m_is_done.wait(false)\<close>, which
  returns once the flag is set.\<close>

definition wait_job_done :: "state \<Rightarrow> JOBID \<Rightarrow> unit outcome" where
  "wait_job_done s jobid =
     (if jobid = nullptr then Returns ()
      else case heap s jobid of
             None \<Rightarrow> Fails Invalid_pointer
           | Some j \<Rightarrow> if is_done j then Returns () else Blocks)"

text \<open>The client's \<open>process_after_done()\<close>: the model records that it has run.\<close>

definition process_after_done :: "JOBID \<Rightarrow> state \<Rightarrow> state" where
  "process_after_done job s = s\<lparr>hook_runs := (hook_runs s)(job := hook_runs s job + 1)\<rparr>"

text \<open>
  One step of driver thread \<open>d\<close> in \<open>process_job\<close>:
  \<^item> inside \<open>job->process()\<close>: the next \<open>emplace_task\<close> (a \<open>push_task\<close> of a task with the
    job's own id), or, when none is left, the return and \<open>job->set_all_tasks_pushed()\<close>;
  \<^item> in \<open>wait_until_all_tasks_done\<close>: the loop \<open>while (t) { m_running_tasks.wait(t); t =
    m_running_tasks; }\<close> is left when the counter is read as 0;
  \<^item> \<open>process_after_done()\<close>;
  \<^item> \<open>m_is_done.test_and_set()\<close> (and \<open>notify_all\<close>).
\<close>

definition process_job :: "nat \<Rightarrow> state \<Rightarrow> state outcome" where
  "process_job d s =
     (let job = d_job (drivers s ! d) in
      case heap s job of
        None \<Rightarrow> Fails Invalid_pointer
      | Some j \<Rightarrow>
          (case d_pc (drivers s ! d) of
             D_process k \<Rightarrow>
               (case k of
                  Suc k' \<Rightarrow> and_then (push_task s (Task job)) (\<lambda>s'. Returns (set_dpc d (D_process k') s'))
                | 0 \<Rightarrow> Returns (set_dpc d D_wait (s\<lparr>heap := (heap s)(job \<mapsto> set_all_tasks_pushed j)\<rparr>)))
           | D_wait \<Rightarrow> if m_running_tasks j = 0 then Returns (set_dpc d D_hook s) else Blocks
           | D_hook \<Rightarrow> Returns (set_dpc d D_set_done (process_after_done job s))
           | D_set_done \<Rightarrow>
               Returns (set_dpc d D_finished (s\<lparr>heap := (heap s)(job \<mapsto> j\<lparr>m_is_done := True\<rparr>)\<rparr>))
           | D_finished \<Rightarrow> Blocks))"

section \<open>\<open>MultiTask::terminate\<close>\<close>

text \<open>
  The locked section: \<open>m_tasks_queue.clear(); m_tasks_queue.push_back(unique_ptr<Task>())\<close>.
\<close>

definition terminate_locked :: "state \<Rightarrow> state" where
  "terminate_locked s = s\<lparr>m_tasks_queue := [None]\<rparr>"

text \<open>
  \<open>t.join()\<close> on the handle of worker \<open>i\<close>: it waits until the thread has left
  \<open>process_task\<close>; a second \<open>join\<close> on a handle throws \<open>invalid_argument\<close>.
\<close>

definition join :: "nat \<Rightarrow> state \<Rightarrow> state outcome" where
  "join i s =
     (if joined (threads s ! i) \<noteq> 0 then Fails Invalid_argument
      else if wpc (threads s ! i) = W_exited
      then Returns (s\<lparr>threads := (threads s)[i := (threads s ! i)\<lparr>joined := 1\<rparr>]\<rparr>)
      else Blocks)"

fun join_all :: "nat list \<Rightarrow> state \<Rightarrow> state outcome" where
  "join_all [] s = Returns s"
| "join_all (i # is) s = and_then (join i s) (join_all is)"

text \<open>After the joins: \<open>m_tasks.clear(); m_tasks_queue.clear()\<close>.\<close>

definition terminate_clear :: "state \<Rightarrow> state" where
  "terminate_clear s = s\<lparr>m_tasks := [], m_tasks_queue := []\<rparr>"

text \<open>
  \<open>terminate\<close> as its caller lives it when no other client thread runs meanwhile: the
  locked section, then for each handle the joined worker runs until it has left its loop
  (\<open>run_worker\<close>, with fuel: a worker that blocks or needs more steps makes the join
  block), then the two \<open>clear\<close>s.
\<close>

fun run_worker :: "nat \<Rightarrow> nat \<Rightarrow> state \<Rightarrow> state outcome" where
  "run_worker 0 i s = (if wpc (threads s ! i) = W_exited then Returns s else Blocks)"
| "run_worker (Suc fuel) i s =
     (if wpc (threads s ! i) = W_exited then Returns s
      else and_then (process_task i s) (run_worker fuel i))"

fun join_workers :: "nat \<Rightarrow> nat list \<Rightarrow> state \<Rightarrow> state outcome" where
  "join_workers fuel [] s = Returns s"
| "join_workers fuel (i # is) s =
     and_then (run_worker fuel i s) (\<lambda>s'. and_then (join i s') (join_workers fuel is))"

definition terminate :: "state \<Rightarrow> state outcome" where
  "terminate s =
     and_then (join_workers 3 (m_tasks s) (terminate_locked s)) (\<lambda>s'. Returns (terminate_clear s'))"

section \<open>The engine as a transition system\<close>

text \<open>
  An event is one atomic step of one thread. The client threads: \<open>E_new a n\<close> constructs
  a job object at the fresh address \<open>a\<close> whose \<open>process()\<close> pushes \<open>n\<close> tasks;
  \<open>E_push_job\<close>, \<open>E_restart_job\<close>, \<open>E_pop_job\<close> call the engine; \<open>E_terminate_begin\<close> is
  the locked section of \<open>terminate\<close> and \<open>E_terminate_end\<close> its joins and \<open>clear\<close>s (the
  joins change nothing that another thread reads, so they are taken at the moment the
  last one returns). \<open>E_driver d\<close> and \<open>E_worker i\<close> are steps of the engine's own
  threads.

  \<open>step\<close> is \<open>None\<close> when the thread cannot take the step in this state: it blocks, it
  has finished, or the call is outside the client contract the engine documents and
  does not check:
  \<^item> a job object is submitted once (\<open>push_job\<close> of a registered job, the duplicate, is
    in the model; \<open>push_job\<close> of an unregistered job that has been activated before is
    not): another activation is by \<open>restart_job\<close>;
  \<^item> \<open>restart_job\<close> is called on a job that is done;
  \<^item> tasks of a job are pushed by the job's own \<open>process()\<close>;
  \<^item> job objects are not destroyed while the engine runs, and one thread at a time is
    inside \<open>terminate\<close>.
\<close>

datatype event =
    E_new JOBID nat
  | E_push_job JOBID
  | E_restart_job JOBID
  | E_pop_job JOBID
  | E_driver nat
  | E_worker nat
  | E_terminate_begin
  | E_terminate_end

definition activations :: "state \<Rightarrow> JOBID \<Rightarrow> nat" where
  "activations s a = count_list (map d_job (drivers s)) a"

definition returned :: "'a outcome \<Rightarrow> 'a option" where
  "returned r = (case r of Returns x \<Rightarrow> Some x | Blocks \<Rightarrow> None | Fails e \<Rightarrow> None)"

definition step :: "event \<Rightarrow> state \<Rightarrow> state option" where
  "step e s =
     (case e of
        E_new a n \<Rightarrow>
          if a \<noteq> nullptr \<and> heap s a = None then Some (s\<lparr>heap := (heap s)(a \<mapsto> Job_ctor n)\<rparr>)
          else None
      | E_push_job a \<Rightarrow>
          if m_jobs_map s a = None \<and> activations s a \<noteq> 0 then None
          else map_option fst (returned (push_job s a))
      | E_restart_job a \<Rightarrow>
          (case heap s a of
             None \<Rightarrow> None
           | Some j \<Rightarrow> if is_done j then returned (restart_job s a) else None)
      | E_pop_job a \<Rightarrow> Some (fst (pop_job s a))
      | E_driver d \<Rightarrow> if d < length (drivers s) then returned (process_job d s) else None
      | E_worker i \<Rightarrow> if i < length (threads s) then returned (process_task i s) else None
      | E_terminate_begin \<Rightarrow>
          if terminating s then None else Some ((terminate_locked s)\<lparr>terminating := True\<rparr>)
      | E_terminate_end \<Rightarrow>
          if terminating s
          then returned (and_then (join_all (m_tasks s) s)
                 (\<lambda>s'. Returns ((terminate_clear s')\<lparr>terminating := False\<rparr>)))
          else None)"

fun run :: "event list \<Rightarrow> state \<Rightarrow> state option" where
  "run [] s = Some s"
| "run (e # es) s = (case step e s of None \<Rightarrow> None | Some s' \<Rightarrow> run es s')"

text \<open>The states the engine reaches from its construction.\<close>

definition reachable :: "state \<Rightarrow> bool" where
  "reachable s \<longleftrightarrow>
     (\<exists>task_threads max_tasks hardware_concurrency s0 es.
        init task_threads max_tasks hardware_concurrency = Returns s0 \<and> run es s0 = Some s)"

section \<open>Invariants of the engine\<close>

text \<open>
  What is outstanding for a job: its tasks in the queue, those inside \<open>process()\<close> on a
  worker, and those whose \<open>process()\<close> has returned but whose decrement is still to
  come.
\<close>

definition queued :: "state \<Rightarrow> JOBID \<Rightarrow> nat" where
  "queued s a = count_list (m_tasks_queue s) (Some (Task a))"

definition running :: "state \<Rightarrow> JOBID \<Rightarrow> nat" where
  "running s a = count_list (map wpc (threads s)) (W_running (Task a))"

definition ran :: "state \<Rightarrow> JOBID \<Rightarrow> nat" where
  "ran s a = count_list (map wpc (threads s)) (W_ran (Task a))"

definition pc_inv :: "state \<Rightarrow> JOBID \<Rightarrow> Job \<Rightarrow> dpc \<Rightarrow> bool" where
  "pc_inv s a j pc =
     (case pc of
        D_process k \<Rightarrow>
          m_running_tasks j + k \<le> n_tasks j \<and> \<not> m_is_done j \<and> \<not> m_is_all_task_pushed j \<and>
          Suc (hook_runs s a) = activations s a \<and>
          m_running_tasks j + task_runs s a + k = activations s a * n_tasks j + ran s a
      | D_wait \<Rightarrow>
          \<not> m_is_done j \<and> m_is_all_task_pushed j \<and> Suc (hook_runs s a) = activations s a \<and>
          m_running_tasks j + task_runs s a = activations s a * n_tasks j + ran s a
      | D_hook \<Rightarrow>
          \<not> m_is_done j \<and> m_is_all_task_pushed j \<and> Suc (hook_runs s a) = activations s a \<and>
          m_running_tasks j = 0 \<and> task_runs s a = activations s a * n_tasks j
      | D_set_done \<Rightarrow>
          \<not> m_is_done j \<and> m_is_all_task_pushed j \<and> hook_runs s a = activations s a \<and>
          activations s a \<noteq> 0 \<and>
          m_running_tasks j = 0 \<and> task_runs s a = activations s a * n_tasks j
      | D_finished \<Rightarrow> True)"

definition drivers_inv :: "state \<Rightarrow> bool" where
  "drivers_inv s \<longleftrightarrow>
     (\<forall>d<length (drivers s).
        case heap s (d_job (drivers s ! d)) of
          None \<Rightarrow> False
        | Some j \<Rightarrow> pc_inv s (d_job (drivers s ! d)) j (d_pc (drivers s ! d)))"

definition one_driver :: "state \<Rightarrow> bool" where
  "one_driver s \<longleftrightarrow>
     (\<forall>d d'. d < length (drivers s) \<and> d' < length (drivers s) \<and>
        d_job (drivers s ! d) = d_job (drivers s ! d') \<and>
        d_pc (drivers s ! d) \<noteq> D_finished \<and> d_pc (drivers s ! d') \<noteq> D_finished \<longrightarrow> d = d')"

definition no_driver :: "state \<Rightarrow> JOBID \<Rightarrow> bool" where
  "no_driver s a \<longleftrightarrow>
     (\<forall>d<length (drivers s). d_job (drivers s ! d) = a \<longrightarrow> d_pc (drivers s ! d) = D_finished)"

definition idle_inv :: "state \<Rightarrow> bool" where
  "idle_inv s \<longleftrightarrow>
     (\<forall>a j. heap s a = Some j \<and> no_driver s a \<longrightarrow>
        m_running_tasks j = 0 \<and> hook_runs s a = activations s a \<and>
        task_runs s a = activations s a * n_tasks j \<and>
        (m_is_done j \<longleftrightarrow> activations s a \<noteq> 0) \<and>
        (m_is_all_task_pushed j \<longleftrightarrow> activations s a \<noteq> 0))"

definition count_inv :: "(JOBID \<Rightarrow> nat) \<Rightarrow> state \<Rightarrow> bool" where
  "count_inv L s \<longleftrightarrow>
     (\<forall>a j. heap s a = Some j \<longrightarrow>
        queued s a + running s a + ran s a + L a \<le> m_running_tasks j)"

definition dead_inv :: "(JOBID \<Rightarrow> nat) \<Rightarrow> state \<Rightarrow> bool" where
  "dead_inv L s \<longleftrightarrow>
     (\<forall>a. heap s a = None \<longrightarrow>
        queued s a = 0 \<and> running s a = 0 \<and> ran s a = 0 \<and> activations s a = 0 \<and>
        task_runs s a = 0 \<and> hook_runs s a = 0 \<and> L a = 0)"

definition engine_inv :: "(JOBID \<Rightarrow> nat) \<Rightarrow> state \<Rightarrow> bool" where
  "engine_inv L s \<longleftrightarrow>
     drivers_inv s \<and> one_driver s \<and> idle_inv s \<and> count_inv L s \<and> dead_inv L s"


section \<open>The older header \<open>src/MultiThreadTask.h\<close>\<close>

text \<open>
  The repository also holds an older version of the engine, without the task counter:
  a job is taken to be complete when no task with its id is left in the queue
  (\<open>is_job_tasks_queue_empty\<close>, a \<open>none_of\<close> over the queue). What follows is the part
  of that file the comparison with the counter needs: the tasks (a task carries the flag
  \<open>m_is_terminator\<close>, the terminator is a \<open>Task(0, true)\<close>), the worker loop, the
  driver, the two checks and \<open>push_job\<close>. Names that the two versions share carry the
  suffix \<open>_h\<close> here. Only the events \<open>E_new\<close>, \<open>E_push_job\<close>, \<open>E_driver\<close> and
  \<open>E_worker\<close> are given a step.

  In this version \<open>push_job\<close> inserts with \<open>insert(pair{jobid, move(job)})\<close>: the
  \<open>unique_ptr\<close> is moved into the pair before the lookup, so on a duplicate the
  temporary pair dies holding the job, the job object is destroyed, and 0 is returned.
  \<open>process_job\<close> ends in \<open>set_done()\<close>, which sets and notifies \<open>m_is_done\<close> and
  only then calls \<open>process_after_done()\<close>.
\<close>

record Job_h =
  m_is_all_task_pushed_h :: bool
  m_is_done_h :: bool
  m_conveyor_h :: bool
  n_tasks_h :: nat

definition Job_ctor_h :: "nat \<Rightarrow> Job_h" where
  "Job_ctor_h n = \<lparr>m_is_all_task_pushed_h = False, m_is_done_h = False, m_conveyor_h = False,
     n_tasks_h = n\<rparr>"

datatype Task_h = Task_h (is_terminator: bool) (get_id_h: JOBID)

definition Terminator :: Task_h where
  "Terminator = Task_h True nullptr"

datatype wpc_h = W_idle_h | W_running_h Task_h | W_exited_h

datatype dpc_h = D_process_h nat | D_wait_h | D_set_done_h | D_hook_h | D_finished_h

record driver_h =
  d_job_h :: JOBID
  d_pc_h :: dpc_h

record state_h =
  m_jobs_map_h :: "JOBID \<rightharpoonup> JOBID"
  m_max_tasks_h :: nat
  m_tasks_queue_h :: "Task_h list"
  heap_h :: "JOBID \<rightharpoonup> Job_h"
  threads_h :: "wpc_h list"
  drivers_h :: "driver_h list"
  task_runs_h :: "JOBID \<Rightarrow> nat"
  hook_runs_h :: "JOBID \<Rightarrow> nat"

definition engine_h :: "nat \<Rightarrow> nat \<Rightarrow> state_h" where
  "engine_h n max_tasks =
     \<lparr>m_jobs_map_h = Map.empty, m_max_tasks_h = max_tasks, m_tasks_queue_h = [],
      heap_h = Map.empty, threads_h = replicate n W_idle_h, drivers_h = [],
      task_runs_h = (\<lambda>_. 0), hook_runs_h = (\<lambda>_. 0)\<rparr>"

definition is_job_tasks_queue_empty :: "state_h \<Rightarrow> JOBID \<Rightarrow> bool" where
  "is_job_tasks_queue_empty s jobid = (\<not> list_ex (\<lambda>elem. get_id_h elem = jobid) (m_tasks_queue_h s))"

definition check_job_is_done_h :: "state_h \<Rightarrow> JOBID \<Rightarrow> bool" where
  "check_job_is_done_h s jobid = (if jobid = nullptr then True else is_job_tasks_queue_empty s jobid)"

definition wait_job_tasks_done :: "state_h \<Rightarrow> JOBID \<Rightarrow> unit outcome" where
  "wait_job_tasks_done s jobid =
     (if jobid = nullptr then Returns ()
      else if is_job_tasks_queue_empty s jobid then Returns () else Blocks)"

definition push_task_h :: "state_h \<Rightarrow> Task_h \<Rightarrow> state_h outcome" where
  "push_task_h s task =
     (if m_max_tasks_h s \<noteq> 0 \<and> length (m_tasks_queue_h s) = m_max_tasks_h s then Blocks
      else Returns (s\<lparr>m_tasks_queue_h := m_tasks_queue_h s @ [task]\<rparr>))"

definition process_task_h :: "nat \<Rightarrow> state_h \<Rightarrow> state_h outcome" where
  "process_task_h i s =
     (case threads_h s ! i of
        W_idle_h \<Rightarrow>
          (case m_tasks_queue_h s of
             [] \<Rightarrow> Blocks
           | task # rest \<Rightarrow>
               if is_terminator task then Returns (s\<lparr>threads_h := (threads_h s)[i := W_exited_h]\<rparr>)
               else Returns (s\<lparr>m_tasks_queue_h := rest,
                               threads_h := (threads_h s)[i := W_running_h task]\<rparr>))
      | W_running_h task \<Rightarrow>
          Returns (s\<lparr>threads_h := (threads_h s)[i := W_idle_h],
                     task_runs_h := (task_runs_h s)(get_id_h task := task_runs_h s (get_id_h task) + 1)\<rparr>)
      | W_exited_h \<Rightarrow> Blocks)"

definition push_job_h :: "state_h \<Rightarrow> JOBID \<Rightarrow> (state_h \<times> JOBID \<times> JOBID) outcome" where
  "push_job_h s job =
     (case heap_h s job of
        None \<Rightarrow> Fails Invalid_pointer
      | Some j \<Rightarrow>
          (let s1 = s\<lparr>heap_h := (heap_h s)(job \<mapsto> j\<lparr>m_conveyor_h := True\<rparr>)\<rparr> in
           if m_jobs_map_h s1 job \<noteq> None
           then Returns (s1\<lparr>heap_h := (heap_h s1)(job := None)\<rparr>, nullptr, nullptr)
           else Returns (s1\<lparr>m_jobs_map_h := (m_jobs_map_h s1)(job \<mapsto> job),
                            drivers_h := drivers_h s1 @ [\<lparr>d_job_h = job, d_pc_h = D_process_h (n_tasks_h j)\<rparr>]\<rparr>,
                         job, nullptr)))"

definition set_dpc_h :: "nat \<Rightarrow> dpc_h \<Rightarrow> state_h \<Rightarrow> state_h" where
  "set_dpc_h d p s = s\<lparr>drivers_h := (drivers_h s)[d := (drivers_h s ! d)\<lparr>d_pc_h := p\<rparr>]\<rparr>"

definition process_job_h :: "nat \<Rightarrow> state_h \<Rightarrow> state_h outcome" where
  "process_job_h d s =
     (let job = d_job_h (drivers_h s ! d) in
      case heap_h s job of
        None \<Rightarrow> Fails Invalid_pointer
      | Some j \<Rightarrow>
          (case d_pc_h (drivers_h s ! d) of
             D_process_h k \<Rightarrow>
               (case k of
                  Suc k' \<Rightarrow> and_then (push_task_h s (Task_h False job))
                              (\<lambda>s'. Returns (set_dpc_h d (D_process_h k') s'))
                | 0 \<Rightarrow> Returns (set_dpc_h d D_wait_h
                                  (s\<lparr>heap_h := (heap_h s)(job \<mapsto> j\<lparr>m_is_all_task_pushed_h := True\<rparr>)\<rparr>)))
           | D_wait_h \<Rightarrow>
               and_then (wait_job_tasks_done s job) (\<lambda>_. Returns (set_dpc_h d D_set_done_h s))
           | D_set_done_h \<Rightarrow>
               Returns (set_dpc_h d D_hook_h (s\<lparr>heap_h := (heap_h s)(job \<mapsto> j\<lparr>m_is_done_h := True\<rparr>)\<rparr>))
           | D_hook_h \<Rightarrow>
               Returns (set_dpc_h d D_finished_h
                          (s\<lparr>hook_runs_h := (hook_runs_h s)(job := hook_runs_h s job + 1)\<rparr>))
           | D_finished_h \<Rightarrow> Blocks))"

definition step_h :: "event \<Rightarrow> state_h \<Rightarrow> state_h option" where
  "step_h e s =
     (case e of
        E_new a n \<Rightarrow>
          if a \<noteq> nullptr \<and> heap_h s a = None then Some (s\<lparr>heap_h := (heap_h s)(a \<mapsto> Job_ctor_h n)\<rparr>)
          else None
      | E_push_job a \<Rightarrow> map_option fst (returned (push_job_h s a))
      | E_driver d \<Rightarrow> if d < length (drivers_h s) then returned (process_job_h d s) else None
      | E_worker i \<Rightarrow> if i < length (threads_h s) then returned (process_task_h i s) else None
      | _ \<Rightarrow> None)"

fun run_h :: "event list \<Rightarrow> state_h \<Rightarrow> state_h option" where
  "run_h [] s = Some s"
| "run_h (e # es) s = (case step_h e s of None \<Rightarrow> None | Some s' \<Rightarrow> run_h es s')"

text \<open>
  Three more invariants: the queue stays within the configured capacity; the worker
  pool is either complete and unjoined or empty with every worker out of its loop and
  joined once; \<open>producing\<close> says that a driver of the job is still inside the job's
  \<open>process()\<close>. While a thread is inside \<open>terminate\<close> the null terminator stays at the
  front of the queue (\<open>term_inv\<close>), and \<open>steps_to_exit\<close> counts the steps a worker still
  takes before it leaves its loop.
\<close>

definition null_inv :: "state \<Rightarrow> bool" where
  "null_inv s \<longleftrightarrow> heap s nullptr = None \<and> m_jobs_map s nullptr = None"

definition cap_inv :: "state \<Rightarrow> bool" where
  "cap_inv s \<longleftrightarrow> (m_max_tasks s \<noteq> 0 \<longrightarrow> length (m_tasks_queue s) \<le> m_max_tasks s)"

definition pool_inv :: "state \<Rightarrow> bool" where
  "pool_inv s \<longleftrightarrow>
     (m_tasks s = [0..<length (threads s)] \<and> (\<forall>i<length (threads s). joined (threads s ! i) = 0)) \<or>
     (m_tasks s = [] \<and>
      (\<forall>i<length (threads s). wpc (threads s ! i) = W_exited \<and> joined (threads s ! i) = 1))"

definition producing :: "state \<Rightarrow> JOBID \<Rightarrow> bool" where
  "producing s h \<longleftrightarrow>
     (\<exists>d<length (drivers s). d_job (drivers s ! d) = h \<and> (\<exists>m. d_pc (drivers s ! d) = D_process m))"

definition term_inv :: "state \<Rightarrow> bool" where
  "term_inv s \<longleftrightarrow> (terminating s \<longrightarrow> (\<exists>rest. m_tasks_queue s = None # rest))"

definition steps_to_exit :: "wpc \<Rightarrow> nat" where
  "steps_to_exit p = (case p of W_running _ \<Rightarrow> 3 | W_ran _ \<Rightarrow> 2 | W_idle \<Rightarrow> 1 | W_exited \<Rightarrow> 0)"

section \<open>Example runs\<close>

text \<open>
  An engine with two workers and an unbounded queue, and a job at address 8 whose
  \<open>process()\<close> pushes two tasks. \<open>demo_schedule\<close> runs the job to completion;
  \<open>demo_restart_schedule\<close>, after a \<open>restart_job\<close>, runs the second activation.
\<close>

definition demo_engine :: state where
  "demo_engine = spawn_workers (Suc (Suc 0)) (empty_engine 0)"

definition demo_schedule :: "event list" where
  "demo_schedule =
     [E_new 8 2, E_push_job 8, E_driver 0, E_driver 0, E_driver 0,
      E_worker 0, E_worker 1, E_worker 0, E_worker 1, E_worker 0, E_worker 1,
      E_driver 0, E_driver 0, E_driver 0]"

definition demo_done :: state where
  "demo_done = the (run demo_schedule demo_engine)"

definition job_done :: Job where
  "job_done = \<lparr>m_is_all_task_pushed = True, m_is_done = True, m_conveyor = True,
     m_running_tasks = 0, n_tasks = 2\<rparr>"

definition demo_restart_schedule :: "event list" where
  "demo_restart_schedule =
     [E_driver 1, E_driver 1, E_driver 1,
      E_worker 0, E_worker 1, E_worker 0, E_worker 1, E_worker 0, E_worker 1,
      E_driver 1, E_driver 1, E_driver 1]"

definition demo_redone :: state where
  "demo_redone = the (run (E_restart_job 8 # demo_restart_schedule) demo_done)"

text \<open>
  More example states: an engine with one worker and capacity 1, with its queue full;
  the two-worker engine with both tasks of the job queued and the driver waiting; the
  same after \<open>terminate\<close>; and with one task being executed and one queued.
\<close>

definition bounded_engine :: state where
  "bounded_engine = spawn_workers (Suc 0) (empty_engine 1)"

definition bounded_full :: state where
  "bounded_full = the (run [E_new 8 2, E_push_job 8, E_driver 0] bounded_engine)"

definition demo_queued :: state where
  "demo_queued = the (run [E_new 8 2, E_push_job 8, E_driver 0, E_driver 0, E_driver 0] demo_engine)"

definition demo_lost :: state where
  "demo_lost = the (run [E_terminate_begin, E_worker 0, E_worker 1, E_terminate_end] demo_queued)"

definition demo_busy :: state where
  "demo_busy =
     the (run [E_new 8 2, E_push_job 8, E_driver 0, E_driver 0, E_worker 0] demo_engine)"

text \<open>
  A job with one task, pushed and then popped by worker 0, which is inside the task's
  \<open>process()\<close>: the same schedule on the engine and on the older header, and the older
  header's driver two steps further. Then: a job object constructed and never
  submitted; the job just registered; the job popped from the registry in the middle of
  its activation; the job with its driver before the hook.
\<close>

definition in_flight_schedule :: "event list" where
  "in_flight_schedule = [E_new 8 1, E_push_job 8, E_driver 0, E_driver 0, E_worker 0]"

definition in_flight :: state where
  "in_flight = the (run in_flight_schedule demo_engine)"

definition in_flight_h :: state_h where
  "in_flight_h = the (run_h in_flight_schedule (engine_h 2 0))"

definition early_done_h :: state_h where
  "early_done_h = the (run_h [E_driver 0, E_driver 0] in_flight_h)"

definition demo_unsubmitted :: state where
  "demo_unsubmitted = the (run [E_new 8 2] demo_engine)"

definition demo_registered :: state where
  "demo_registered = the (run [E_new 8 2, E_push_job 8] demo_engine)"

definition demo_popped :: state where
  "demo_popped = the (run [E_new 8 2, E_push_job 8, E_driver 0, E_pop_job 8] demo_engine)"

definition demo_hook :: state where
  "demo_hook = the (run (take 12 demo_schedule) demo_engine)"

definition registered_h :: state_h where
  "registered_h = the (run_h [E_new 8 2, E_push_job 8] (engine_h 2 0))"

section \<open>Construction\<close>

lemma threads_spawn_workers:
  "threads (spawn_workers k s) = threads s @ replicate k \<lparr>wpc = W_idle, joined = 0\<rparr>"
  by (induction k arbitrary: s) (simp_all add: emplace_back_thread_def replicate_app_Cons_same)

text \<open>
  C8. The claim (at least one worker in all cases, also when the hardware parallelism is
  reported as 0) fails on the code: with a configured count of 0 and
  \<open>hardware_concurrency() = 0\<close> the count is \<open>(int)(0u - 1) = -1\<close>, which the test
  \<open>!task_threads_count\<close> does not catch, and \<open>init\<close> ends in \<open>length_error\<close> with no
  worker created.
\<close>

theorem init_hardware_concurrency_zero:
  "task_threads_count 0 0 = - 1 \<and> init 0 max_tasks 0 = Fails Length_error"
  by (simp add: init_def task_threads_count_def)

section \<open>Counting and framing lemmas\<close>

lemma count_list_nth_pos: "i < length xs \<Longrightarrow> xs ! i = z \<Longrightarrow> 0 < count_list xs z"
  by (metis count_list_0_iff nth_mem not_gr_zero)

lemma count_list_update:
  "i < length xs \<Longrightarrow>
   count_list (xs[i := y]) z = count_list xs z - (if xs ! i = z then 1 else 0) + (if y = z then 1 else 0)"
proof (induction xs arbitrary: i)
  case Nil
  then show ?case by simp
next
  case (Cons x xs)
  show ?case
  proof (cases i)
    case 0
    then show ?thesis by simp
  next
    case (Suc n)
    with Cons.prems have n: "n < length xs" by simp
    from count_list_nth_pos [OF n] Cons.IH [OF n] Suc show ?thesis by auto
  qed
qed

lemma map_wpc_update:
  "map wpc (ts[i := (ts ! i)\<lparr>wpc := p\<rparr>]) = (map wpc ts)[i := p]"
  by (simp add: map_update)

lemma map_d_job_update:
  "map d_job (ds[d := (ds ! d)\<lparr>d_pc := p\<rparr>]) = map d_job ds"
proof (cases "d < length ds")
  case True
  then show ?thesis by (simp add: map_update list_update_same_conv)
next
  case False
  then show ?thesis by (simp add: list_update_beyond)
qed

text \<open>
  A worker that holds a task, or a driver of a job, makes the corresponding count
  positive, and a counted address holds a job object.
\<close>

lemma running_pos: "i < length (threads s) \<Longrightarrow> wpc (threads s ! i) = W_running (Task a) \<Longrightarrow> 0 < running s a"
  unfolding running_def by (rule count_list_nth_pos[of i]) auto

lemma ran_pos: "i < length (threads s) \<Longrightarrow> wpc (threads s ! i) = W_ran (Task a) \<Longrightarrow> 0 < ran s a"
  unfolding ran_def by (rule count_list_nth_pos[of i]) auto

lemma set_wpc_simps [simp]:
  "heap (set_wpc i p s) = heap s" "drivers (set_wpc i p s) = drivers s"
  "m_tasks_queue (set_wpc i p s) = m_tasks_queue s" "task_runs (set_wpc i p s) = task_runs s"
  "hook_runs (set_wpc i p s) = hook_runs s" "m_max_tasks (set_wpc i p s) = m_max_tasks s"
  "m_tasks (set_wpc i p s) = m_tasks s" "terminating (set_wpc i p s) = terminating s"
  "m_jobs_map (set_wpc i p s) = m_jobs_map s"
  "length (threads (set_wpc i p s)) = length (threads s)"
  by (simp_all add: set_wpc_def)

lemma set_dpc_simps [simp]:
  "heap (set_dpc i p s) = heap s" "threads (set_dpc i p s) = threads s"
  "m_tasks_queue (set_dpc i p s) = m_tasks_queue s" "task_runs (set_dpc i p s) = task_runs s"
  "hook_runs (set_dpc i p s) = hook_runs s" "m_max_tasks (set_dpc i p s) = m_max_tasks s"
  "m_tasks (set_dpc i p s) = m_tasks s" "terminating (set_dpc i p s) = terminating s"
  "m_jobs_map (set_dpc i p s) = m_jobs_map s"
  "length (drivers (set_dpc i p s)) = length (drivers s)"
  by (simp_all add: set_dpc_def)

lemma queued_set_wpc [simp]: "queued (set_wpc i p s) = queued s"
  by (simp add: queued_def fun_eq_iff)
lemma activations_set_wpc [simp]: "activations (set_wpc i p s) = activations s"
  by (simp add: activations_def fun_eq_iff)
lemma activations_set_dpc [simp]: "activations (set_dpc i p s) = activations s"
  by (simp add: activations_def fun_eq_iff set_dpc_def map_d_job_update)
lemma queued_set_dpc [simp]: "queued (set_dpc i p s) = queued s"
  by (simp add: queued_def fun_eq_iff)
lemma running_set_dpc [simp]: "running (set_dpc i p s) = running s"
  by (simp add: running_def fun_eq_iff)
lemma ran_set_dpc [simp]: "ran (set_dpc i p s) = ran s"
  by (simp add: ran_def fun_eq_iff)

lemma running_set_wpc:
  "i < length (threads s) \<Longrightarrow>
   running (set_wpc i p s) a =
     running s a - (if wpc (threads s ! i) = W_running (Task a) then 1 else 0)
       + (if p = W_running (Task a) then 1 else 0)"
  by (simp add: running_def set_wpc_def map_wpc_update count_list_update)

lemma ran_set_wpc:
  "i < length (threads s) \<Longrightarrow>
   ran (set_wpc i p s) a =
     ran s a - (if wpc (threads s ! i) = W_ran (Task a) then 1 else 0)
       + (if p = W_ran (Task a) then 1 else 0)"
  by (simp add: ran_def set_wpc_def map_wpc_update count_list_update)

lemma Task_process_simps [simp]:
  "heap (Task_process t s) = heap s" "drivers (Task_process t s) = drivers s"
  "threads (Task_process t s) = threads s"
  "m_tasks_queue (Task_process t s) = m_tasks_queue s"
  "task_runs (Task_process t s) = (task_runs s)(get_id t := task_runs s (get_id t) + 1)"
  "hook_runs (Task_process t s) = hook_runs s"
  "queued (Task_process t s) = queued s" "running (Task_process t s) = running s"
  "ran (Task_process t s) = ran s" "activations (Task_process t s) = activations s"
  by (simp_all add: Task_process_def queued_def running_def ran_def activations_def fun_eq_iff)

lemma no_driver_set_wpc [simp]: "no_driver (set_wpc i p s) = no_driver s"
  by (simp add: no_driver_def fun_eq_iff)
lemma no_driver_Task_process [simp]: "no_driver (Task_process t s) = no_driver s"
  by (simp add: no_driver_def fun_eq_iff)
lemma one_driver_set_wpc [simp]: "one_driver (set_wpc i p s) = one_driver s"
  by (simp add: one_driver_def)
lemma one_driver_Task_process [simp]: "one_driver (Task_process t s) = one_driver s"
  by (simp add: one_driver_def)

lemma queued_frame [simp]:
  "queued (s\<lparr>m_jobs_map := x0\<rparr>) = queued s"
  "queued (s\<lparr>m_max_tasks := x1\<rparr>) = queued s"
  "queued (s\<lparr>m_tasks := x2\<rparr>) = queued s"
  "queued (s\<lparr>heap := x4\<rparr>) = queued s"
  "queued (s\<lparr>threads := x5\<rparr>) = queued s"
  "queued (s\<lparr>drivers := x6\<rparr>) = queued s"
  "queued (s\<lparr>terminating := x7\<rparr>) = queued s"
  "queued (s\<lparr>task_runs := x8\<rparr>) = queued s"
  "queued (s\<lparr>hook_runs := x9\<rparr>) = queued s"
  by (simp_all add: queued_def fun_eq_iff)

lemma running_frame [simp]:
  "running (s\<lparr>m_jobs_map := x0\<rparr>) = running s"
  "running (s\<lparr>m_max_tasks := x1\<rparr>) = running s"
  "running (s\<lparr>m_tasks := x2\<rparr>) = running s"
  "running (s\<lparr>m_tasks_queue := x3\<rparr>) = running s"
  "running (s\<lparr>heap := x4\<rparr>) = running s"
  "running (s\<lparr>drivers := x6\<rparr>) = running s"
  "running (s\<lparr>terminating := x7\<rparr>) = running s"
  "running (s\<lparr>task_runs := x8\<rparr>) = running s"
  "running (s\<lparr>hook_runs := x9\<rparr>) = running s"
  by (simp_all add: running_def fun_eq_iff)

lemma ran_frame [simp]:
  "ran (s\<lparr>m_jobs_map := x0\<rparr>) = ran s"
  "ran (s\<lparr>m_max_tasks := x1\<rparr>) = ran s"
  "ran (s\<lparr>m_tasks := x2\<rparr>) = ran s"
  "ran (s\<lparr>m_tasks_queue := x3\<rparr>) = ran s"
  "ran (s\<lparr>heap := x4\<rparr>) = ran s"
  "ran (s\<lparr>drivers := x6\<rparr>) = ran s"
  "ran (s\<lparr>terminating := x7\<rparr>) = ran s"
  "ran (s\<lparr>task_runs := x8\<rparr>) = ran s"
  "ran (s\<lparr>hook_runs := x9\<rparr>) = ran s"
  by (simp_all add: ran_def fun_eq_iff)

lemma activations_frame [simp]:
  "activations (s\<lparr>m_jobs_map := x0\<rparr>) = activations s"
  "activations (s\<lparr>m_max_tasks := x1\<rparr>) = activations s"
  "activations (s\<lparr>m_tasks := x2\<rparr>) = activations s"
  "activations (s\<lparr>m_tasks_queue := x3\<rparr>) = activations s"
  "activations (s\<lparr>heap := x4\<rparr>) = activations s"
  "activations (s\<lparr>threads := x5\<rparr>) = activations s"
  "activations (s\<lparr>terminating := x7\<rparr>) = activations s"
  "activations (s\<lparr>task_runs := x8\<rparr>) = activations s"
  "activations (s\<lparr>hook_runs := x9\<rparr>) = activations s"
  by (simp_all add: activations_def fun_eq_iff)

lemma no_driver_frame [simp]:
  "no_driver (s\<lparr>m_jobs_map := x0\<rparr>) = no_driver s"
  "no_driver (s\<lparr>m_max_tasks := x1\<rparr>) = no_driver s"
  "no_driver (s\<lparr>m_tasks := x2\<rparr>) = no_driver s"
  "no_driver (s\<lparr>m_tasks_queue := x3\<rparr>) = no_driver s"
  "no_driver (s\<lparr>heap := x4\<rparr>) = no_driver s"
  "no_driver (s\<lparr>threads := x5\<rparr>) = no_driver s"
  "no_driver (s\<lparr>terminating := x7\<rparr>) = no_driver s"
  "no_driver (s\<lparr>task_runs := x8\<rparr>) = no_driver s"
  "no_driver (s\<lparr>hook_runs := x9\<rparr>) = no_driver s"
  by (simp_all add: no_driver_def fun_eq_iff)

lemma one_driver_frame [simp]:
  "one_driver (s\<lparr>m_jobs_map := x0\<rparr>) = one_driver s"
  "one_driver (s\<lparr>m_max_tasks := x1\<rparr>) = one_driver s"
  "one_driver (s\<lparr>m_tasks := x2\<rparr>) = one_driver s"
  "one_driver (s\<lparr>m_tasks_queue := x3\<rparr>) = one_driver s"
  "one_driver (s\<lparr>heap := x4\<rparr>) = one_driver s"
  "one_driver (s\<lparr>threads := x5\<rparr>) = one_driver s"
  "one_driver (s\<lparr>terminating := x7\<rparr>) = one_driver s"
  "one_driver (s\<lparr>task_runs := x8\<rparr>) = one_driver s"
  "one_driver (s\<lparr>hook_runs := x9\<rparr>) = one_driver s"
  by (simp_all add: one_driver_def fun_eq_iff)

lemma inc_task_count_fields [simp]:
  "m_is_all_task_pushed (inc_task_count j) = (m_is_all_task_pushed j)"
  "m_is_done (inc_task_count j) = (m_is_done j)"
  "m_conveyor (inc_task_count j) = (m_conveyor j)"
  "m_running_tasks (inc_task_count j) = (m_running_tasks j + 1)"
  "n_tasks (inc_task_count j) = (n_tasks j)"
  by (simp_all add: inc_task_count_def)

lemma dec_task_count_fields [simp]:
  "m_is_all_task_pushed (dec_task_count j) = (m_is_all_task_pushed j)"
  "m_is_done (dec_task_count j) = (m_is_done j)"
  "m_conveyor (dec_task_count j) = (m_conveyor j)"
  "m_running_tasks (dec_task_count j) = (m_running_tasks j - 1)"
  "n_tasks (dec_task_count j) = (n_tasks j)"
  by (simp_all add: dec_task_count_def)

lemma set_conveyor_fields [simp]:
  "m_is_all_task_pushed (set_conveyor j) = (m_is_all_task_pushed j)"
  "m_is_done (set_conveyor j) = (m_is_done j)"
  "m_conveyor (set_conveyor j) = True"
  "m_running_tasks (set_conveyor j) = (m_running_tasks j)"
  "n_tasks (set_conveyor j) = (n_tasks j)"
  by (simp_all add: set_conveyor_def)

lemma set_all_tasks_pushed_fields [simp]:
  "m_is_all_task_pushed (set_all_tasks_pushed j) = True"
  "m_is_done (set_all_tasks_pushed j) = (m_is_done j)"
  "m_conveyor (set_all_tasks_pushed j) = (m_conveyor j)"
  "m_running_tasks (set_all_tasks_pushed j) = (m_running_tasks j)"
  "n_tasks (set_all_tasks_pushed j) = (n_tasks j)"
  by (simp_all add: set_all_tasks_pushed_def)

lemma reset_fields [simp]:
  "m_is_all_task_pushed (reset j) = False"
  "m_is_done (reset j) = False"
  "m_conveyor (reset j) = (m_conveyor j)"
  "m_running_tasks (reset j) = (m_running_tasks j)"
  "n_tasks (reset j) = (n_tasks j)"
  by (simp_all add: reset_def)

lemma engine_invD:
  "engine_inv L s \<Longrightarrow> drivers_inv s" "engine_inv L s \<Longrightarrow> one_driver s" "engine_inv L s \<Longrightarrow> idle_inv s"
  "engine_inv L s \<Longrightarrow> count_inv L s" "engine_inv L s \<Longrightarrow> dead_inv L s"
  by (simp_all add: engine_inv_def)

lemma count_invD:
  "count_inv L s \<Longrightarrow> heap s a = Some j \<Longrightarrow> queued s a + running s a + ran s a + L a \<le> m_running_tasks j"
  by (simp add: count_inv_def)

lemma drivers_invD:
  "drivers_inv s \<Longrightarrow> d < length (drivers s) \<Longrightarrow>
   \<exists>j. heap s (d_job (drivers s ! d)) = Some j \<and>
       pc_inv s (d_job (drivers s ! d)) j (d_pc (drivers s ! d))"
  by (auto simp: drivers_inv_def split: option.splits)

lemma drivers_invI:
  "(\<And>d. d < length (drivers s) \<Longrightarrow>
     \<exists>j. heap s (d_job (drivers s ! d)) = Some j \<and>
         pc_inv s (d_job (drivers s ! d)) j (d_pc (drivers s ! d))) \<Longrightarrow> drivers_inv s"
  by (fastforce simp: drivers_inv_def)

lemma live_of_count:
  "dead_inv L s \<Longrightarrow> 0 < queued s a \<or> 0 < running s a \<or> 0 < ran s a \<or> 0 < activations s a \<Longrightarrow>
   heap s a \<noteq> None"
  by (auto simp: dead_inv_def)

text \<open>
  The three steps of a worker preserve the invariant: running the task's \<open>process()\<close>,
  the decrement of the job's counter, and the pop of the next task.
\<close>

lemma exec_inv:
  assumes inv: "engine_inv L s" and i: "i < length (threads s)"
    and pc: "wpc (threads s ! i) = W_running (Task a)"
  shows "engine_inv L (set_wpc i (W_ran (Task a)) (Task_process (Task a) s))"
proof -
  let ?s' = "set_wpc i (W_ran (Task a)) (Task_process (Task a) s)"
  note invs = engine_invD [OF inv]
  have pos: "0 < running s a" using running_pos [OF i pc] .
  have run': "\<And>b. running ?s' b = running s b - (if b = a then 1 else 0)"
    using i pc by (simp add: running_set_wpc)
  have ran': "\<And>b. ran ?s' b = ran s b + (if b = a then 1 else 0)"
    using i pc by (simp add: ran_set_wpc)
  have live: "heap s a \<noteq> None" using live_of_count [OF invs(5)] pos by blast
  have cpos: "\<And>j. heap s a = Some j \<Longrightarrow> 0 < m_running_tasks j"
    using count_invD [OF invs(4)] pos by fastforce
  have "drivers_inv ?s'"
  proof (rule drivers_invI)
    fix d assume dl: "d < length (drivers ?s')"
    with drivers_invD [OF invs(1), of d] obtain j where j: "heap s (d_job (drivers s ! d)) = Some j"
      and p: "pc_inv s (d_job (drivers s ! d)) j (d_pc (drivers s ! d))"
      by auto
    show "\<exists>j. heap ?s' (d_job (drivers ?s' ! d)) = Some j \<and>
          pc_inv ?s' (d_job (drivers ?s' ! d)) j (d_pc (drivers ?s' ! d))"
      using j p cpos [of j] by (auto simp: pc_inv_def ran' split: dpc.splits)
  qed
  moreover have "one_driver ?s'" using invs(2) by simp
  moreover have "idle_inv ?s'"
    using invs(3) cpos unfolding idle_inv_def by (auto simp: ran')
  moreover have "count_inv L ?s'"
    unfolding count_inv_def
  proof (intro allI impI)
    fix b j assume "heap ?s' b = Some j"
    then have "queued s b + running s b + ran s b + L b \<le> m_running_tasks j"
      using count_invD [OF invs(4)] by simp
    then show "queued ?s' b + running ?s' b + ran ?s' b + L b \<le> m_running_tasks j"
      using pos by (simp add: run' ran')
  qed
  moreover have "dead_inv L ?s'"
    using invs(5) live unfolding dead_inv_def by (auto simp: run' ran')
  ultimately show ?thesis by (simp add: engine_inv_def)
qed

lemma dec_inv:
  assumes inv: "engine_inv L s" and i: "i < length (threads s)"
    and pc: "wpc (threads s ! i) = W_ran (Task a)" and j: "heap s a = Some j"
  shows "engine_inv L (set_wpc i W_idle (s\<lparr>heap := (heap s)(a \<mapsto> dec_task_count j)\<rparr>))"
proof -
  let ?s1 = "s\<lparr>heap := (heap s)(a \<mapsto> dec_task_count j)\<rparr>"
  let ?s' = "set_wpc i W_idle ?s1"
  note invs = engine_invD [OF inv]
  have pos: "0 < ran s a" using ran_pos [OF i pc] .
  have obs1: "queued ?s1 = queued s" "running ?s1 = running s" "ran ?s1 = ran s"
    "activations ?s1 = activations s" "no_driver ?s1 = no_driver s"
    by (simp_all add: queued_def running_def ran_def activations_def no_driver_def fun_eq_iff)
  have run': "\<And>b. running ?s' b = running s b"
    using i pc by (simp add: running_set_wpc obs1)
  have ran': "\<And>b. ran ?s' b = ran s b - (if b = a then 1 else 0)"
    using i pc by (simp add: ran_set_wpc obs1)
  have cpos: "0 < m_running_tasks j"
    using count_invD [OF invs(4) j] pos by simp
  have "drivers_inv ?s'"
  proof (rule drivers_invI)
    fix d assume dl: "d < length (drivers ?s')"
    with drivers_invD [OF invs(1), of d] obtain jd where jd: "heap s (d_job (drivers s ! d)) = Some jd"
      and p: "pc_inv s (d_job (drivers s ! d)) jd (d_pc (drivers s ! d))"
      by auto
    show "\<exists>j. heap ?s' (d_job (drivers ?s' ! d)) = Some j \<and>
          pc_inv ?s' (d_job (drivers ?s' ! d)) j (d_pc (drivers ?s' ! d))"
      using j jd p cpos pos
      by (auto simp: pc_inv_def ran' split: dpc.splits)
  qed
  moreover have "one_driver ?s'" using invs(2) by (simp add: one_driver_def)
  moreover have "idle_inv ?s'"
    using invs(3) cpos j unfolding idle_inv_def by (auto simp: ran' obs1)
  moreover have "count_inv L ?s'"
    unfolding count_inv_def
  proof (intro allI impI)
    fix b jb assume h: "heap ?s' b = Some jb"
    show "queued ?s' b + running ?s' b + ran ?s' b + L b \<le> m_running_tasks jb"
    proof (cases "b = a")
      case True
      with h have "jb = dec_task_count j" by simp
      with count_invD [OF invs(4) j] pos True show ?thesis
        by (simp add: run' ran')
    next
      case False
      with h have "heap s b = Some jb" by simp
      from count_invD [OF invs(4) this] False show ?thesis
        by (simp add: run' ran' obs1)
    qed
  qed
  moreover have "dead_inv L ?s'"
    using invs(5) j unfolding dead_inv_def by (auto simp: run' ran' obs1)
  ultimately show ?thesis by (simp add: engine_inv_def)
qed

lemma pop_inv:
  assumes inv: "engine_inv L s" and i: "i < length (threads s)"
    and pc: "wpc (threads s ! i) = W_idle" and q: "m_tasks_queue s = Some (Task a) # rest"
  shows "engine_inv L (set_wpc i (W_running (Task a)) (s\<lparr>m_tasks_queue := rest\<rparr>))"
proof -
  let ?s1 = "s\<lparr>m_tasks_queue := rest\<rparr>"
  let ?s' = "set_wpc i (W_running (Task a)) ?s1"
  note invs = engine_invD [OF inv]
  have obs1: "running ?s1 = running s" "ran ?s1 = ran s"
    "activations ?s1 = activations s" "no_driver ?s1 = no_driver s"
    by (simp_all add: running_def ran_def activations_def no_driver_def fun_eq_iff)
  have q': "\<And>b. queued s b = queued ?s' b + (if b = a then 1 else 0)"
    using q by (simp add: queued_def)
  have run': "\<And>b. running ?s' b = running s b + (if b = a then 1 else 0)"
    using i pc by (simp add: running_set_wpc obs1)
  have ran': "\<And>b. ran ?s' b = ran s b"
    using i pc by (simp add: ran_set_wpc obs1)
  have "drivers_inv ?s'"
  proof (rule drivers_invI)
    fix d assume dl: "d < length (drivers ?s')"
    with drivers_invD [OF invs(1), of d] obtain jd where jd: "heap s (d_job (drivers s ! d)) = Some jd"
      and p: "pc_inv s (d_job (drivers s ! d)) jd (d_pc (drivers s ! d))"
      by auto
    show "\<exists>j. heap ?s' (d_job (drivers ?s' ! d)) = Some j \<and>
          pc_inv ?s' (d_job (drivers ?s' ! d)) j (d_pc (drivers ?s' ! d))"
      using jd p by (auto simp: pc_inv_def ran' obs1 split: dpc.splits)
  qed
  moreover have "one_driver ?s'" using invs(2) by (simp add: one_driver_def)
  moreover have "idle_inv ?s'"
    using invs(3) unfolding idle_inv_def by (auto simp: ran' obs1)
  moreover have "count_inv L ?s'"
    unfolding count_inv_def
  proof (intro allI impI)
    fix b jb assume h: "heap ?s' b = Some jb"
    then have "heap s b = Some jb" by simp
    from count_invD [OF invs(4) this] show "queued ?s' b + running ?s' b + ran ?s' b + L b \<le> m_running_tasks jb"
      by (simp add: q' run' ran')
  qed
  moreover have "dead_inv L ?s'"
    using invs(5) unfolding dead_inv_def by (auto simp: q' run' ran' obs1)
  ultimately show ?thesis by (simp add: engine_inv_def)
qed

lemma d_job_set_dpc [simp]: "d_job (drivers (set_dpc d p s) ! d') = d_job (drivers s ! d')"
  by (cases "d < length (drivers s)") (auto simp: set_dpc_def nth_list_update list_update_beyond)

lemma d_pc_set_dpc:
  "d < length (drivers s) \<Longrightarrow>
   d_pc (drivers (set_dpc d p s) ! d') = (if d' = d then p else d_pc (drivers s ! d'))"
  by (auto simp: set_dpc_def nth_list_update)

lemma pc_inv_frame:
  "hook_runs s' a = hook_runs s a \<Longrightarrow> task_runs s' a = task_runs s a \<Longrightarrow>
   activations s' a = activations s a \<Longrightarrow> ran s' a = ran s a \<Longrightarrow>
   pc_inv s' a j pc = pc_inv s a j pc"
  by (simp add: pc_inv_def split: dpc.splits)

lemma pc_inv_set_dpc [simp]: "pc_inv (set_dpc d p s) = pc_inv s"
  by (simp add: fun_eq_iff pc_inv_def split: dpc.splits)

lemma pc_inv_set_wpc_frame: "ran (set_wpc i p s) a = ran s a \<Longrightarrow> pc_inv (set_wpc i p s) a = pc_inv s a"
  by (simp add: fun_eq_iff pc_inv_def split: dpc.splits)

text \<open>A step of an active driver of job a.\<close>
lemma driver_step_inv:
  assumes inv: "engine_inv L s" and d0: "d0 < length (drivers s)"
    and job: "d_job (drivers s ! d0) = a" and act: "d_pc (drivers s ! d0) \<noteq> D_finished"
    and frame: "drivers s1 = drivers s" "threads s1 = threads s" "heap s1 = (heap s)(a \<mapsto> j')"
      "\<And>b. b \<noteq> a \<Longrightarrow> task_runs s1 b = task_runs s b \<and> hook_runs s1 b = hook_runs s b \<and>
         queued s1 b = queued s b"
    and new: "pc_inv s1 a j' p'"
    and cnt: "queued s1 a + running s a + ran s a + L a \<le> m_running_tasks j'"
    and fin: "p' = D_finished \<Longrightarrow> m_running_tasks j' = 0 \<and> hook_runs s1 a = activations s a \<and>
        task_runs s1 a = activations s a * n_tasks j' \<and> m_is_done j' \<and> activations s a \<noteq> 0 \<and>
        m_is_all_task_pushed j'"
  shows "engine_inv L (set_dpc d0 p' s1)"
proof -
  let ?s' = "set_dpc d0 p' s1"
  note invs = engine_invD [OF inv]
  have obs: "running s1 = running s" "ran s1 = ran s" "activations s1 = activations s"
    using frame(1,2) by (simp_all add: running_def ran_def activations_def fun_eq_iff)
  have others: "\<And>d. d < length (drivers s) \<Longrightarrow> d \<noteq> d0 \<Longrightarrow> d_job (drivers s ! d) = a \<Longrightarrow>
      d_pc (drivers s ! d) = D_finished"
    using invs(2) d0 job act unfolding one_driver_def by metis
  have d01: "d0 < length (drivers s1)" using d0 frame(1) by simp
  have "drivers_inv ?s'"
  proof (rule drivers_invI)
    fix d assume "d < length (drivers ?s')"
    then have dl: "d < length (drivers s)" using frame(1) by simp
    from drivers_invD [OF invs(1) dl] obtain jd where jd: "heap s (d_job (drivers s ! d)) = Some jd"
      and p: "pc_inv s (d_job (drivers s ! d)) jd (d_pc (drivers s ! d))"
      by auto
    show "\<exists>j. heap ?s' (d_job (drivers ?s' ! d)) = Some j \<and>
          pc_inv ?s' (d_job (drivers ?s' ! d)) j (d_pc (drivers ?s' ! d))"
    proof (cases "d = d0")
      case True
      then show ?thesis using new job d01 by (simp add: frame d_pc_set_dpc)
    next
      case False
      show ?thesis
      proof (cases "d_job (drivers s ! d) = a")
        case True
        with others [OF dl False] show ?thesis
          using False d01 by (simp add: frame d_pc_set_dpc pc_inv_def)
      next
        case b: False
        have "pc_inv s1 (d_job (drivers s ! d)) = pc_inv s (d_job (drivers s ! d))"
          using frame(4) [OF b] by (simp add: fun_eq_iff pc_inv_def obs split: dpc.splits)
        then show ?thesis using jd p b False d01 by (simp add: frame d_pc_set_dpc)
      qed
    qed
  qed
  moreover have "one_driver ?s'"
    unfolding one_driver_def
  proof (intro allI impI)
    fix d d'
    assume h: "d < length (drivers ?s') \<and> d' < length (drivers ?s') \<and>
        d_job (drivers ?s' ! d) = d_job (drivers ?s' ! d') \<and>
        d_pc (drivers ?s' ! d) \<noteq> D_finished \<and> d_pc (drivers ?s' ! d') \<noteq> D_finished"
    then have "d < length (drivers s)" "d' < length (drivers s)"
      "d_job (drivers s ! d) = d_job (drivers s ! d')"
      "d_pc (drivers s ! d) \<noteq> D_finished" "d_pc (drivers s ! d') \<noteq> D_finished"
      using d01 act by (auto simp: frame d_pc_set_dpc split: if_splits)
    with invs(2) show "d = d'" unfolding one_driver_def by blast
  qed
  moreover have "idle_inv ?s'"
    unfolding idle_inv_def
  proof (intro allI impI)
    fix b jb assume h: "heap ?s' b = Some jb \<and> no_driver ?s' b"
    show "m_running_tasks jb = 0 \<and> hook_runs ?s' b = activations ?s' b \<and>
        task_runs ?s' b = activations ?s' b * n_tasks jb \<and>
        (m_is_done jb \<longleftrightarrow> activations ?s' b \<noteq> 0) \<and>
        (m_is_all_task_pushed jb \<longleftrightarrow> activations ?s' b \<noteq> 0)"
    proof (cases "b = a")
      case True
      with h have "p' = D_finished" "jb = j'"
        using d0 d01 job frame(1) by (auto simp: no_driver_def d_pc_set_dpc frame(3) split: if_splits)
      with fin True show ?thesis by (simp add: obs)
    next
      case False
      with h have "heap s b = Some jb" by (simp add: frame)
      moreover have "no_driver s b"
        using h False job d01 frame(1)
        by (auto simp: no_driver_def d_pc_set_dpc split: if_splits)
      ultimately show ?thesis
        using invs(3) frame(4) [OF False] unfolding idle_inv_def by (simp add: obs)
    qed
  qed
  moreover have "count_inv L ?s'"
    unfolding count_inv_def
  proof (intro allI impI)
    fix b jb assume h: "heap ?s' b = Some jb"
    show "queued ?s' b + running ?s' b + ran ?s' b + L b \<le> m_running_tasks jb"
    proof (cases "b = a")
      case True
      with h cnt show ?thesis by (simp add: frame obs)
    next
      case False
      with h have "heap s b = Some jb" by (simp add: frame)
      from count_invD [OF invs(4) this] frame(4) [OF False] show ?thesis by (simp add: obs)
    qed
  qed
  moreover have "dead_inv L ?s'"
    using invs(5) frame(4) unfolding dead_inv_def by (simp add: frame(3) obs)
  ultimately show ?thesis by (simp add: engine_inv_def)
qed

lemma engine_inv_shrink:
  assumes inv: "engine_inv L s"
    and fr: "heap s' = heap s" "drivers s' = drivers s" "running s' = running s" "ran s' = ran s"
      "task_runs s' = task_runs s" "hook_runs s' = hook_runs s"
    and q: "\<And>a. queued s' a \<le> queued s a"
  shows "engine_inv L s'"
proof -
  note invs = engine_invD [OF inv]
  have act: "activations s' = activations s" "no_driver s' = no_driver s"
    using fr(2) by (simp_all add: activations_def no_driver_def fun_eq_iff)
  have pc: "pc_inv s' = pc_inv s"
    by (simp add: fun_eq_iff pc_inv_def fr act split: dpc.splits)
  have "drivers_inv s'"
  proof (rule drivers_invI)
    fix d assume "d < length (drivers s')"
    then have "d < length (drivers s)" by (simp add: fr)
    from drivers_invD [OF invs(1) this] show "\<exists>j. heap s' (d_job (drivers s' ! d)) = Some j \<and>
         pc_inv s' (d_job (drivers s' ! d)) j (d_pc (drivers s' ! d))"
      by (simp add: fr pc)
  qed
  moreover have "one_driver s'" using invs(2) by (simp add: one_driver_def fr)
  moreover have "idle_inv s'" using invs(3) by (simp add: idle_inv_def fr act)
  moreover have "count_inv L s'"
    unfolding count_inv_def
  proof (intro allI impI)
    fix b jb assume "heap s' b = Some jb"
    then have "heap s b = Some jb" by (simp add: fr)
    from count_invD [OF invs(4) this] q [of b]
    show "queued s' b + running s' b + ran s' b + L b \<le> m_running_tasks jb" by (simp add: fr)
  qed
  moreover have "dead_inv L s'"
    unfolding dead_inv_def
  proof (intro allI impI)
    fix b assume "heap s' b = None"
    then have "heap s b = None" by (simp add: fr)
    with invs(5) q [of b]
    show "queued s' b = 0 \<and> running s' b = 0 \<and> ran s' b = 0 \<and> activations s' b = 0 \<and>
        task_runs s' b = 0 \<and> hook_runs s' b = 0 \<and> L b = 0"
      by (simp add: dead_inv_def fr act)
  qed
  ultimately show ?thesis by (simp add: engine_inv_def)
qed

lemma exit_inv:
  assumes inv: "engine_inv L s" and i: "i < length (threads s)" and pc: "wpc (threads s ! i) = W_idle"
  shows "engine_inv L (set_wpc i W_exited s)"
  using inv
proof (rule engine_inv_shrink)
  show "running (set_wpc i W_exited s) = running s" "ran (set_wpc i W_exited s) = ran s"
    using i pc by (simp_all add: fun_eq_iff running_set_wpc ran_set_wpc)
qed simp_all

lemma process_task_inv:
  assumes inv: "engine_inv L s" and i: "i < length (threads s)" and st: "process_task i s = Returns s'"
  shows "engine_inv L s'"
proof (cases "wpc (threads s ! i)")
  case W_idle
  show ?thesis
  proof (cases "m_tasks_queue s")
    case Nil
    with st W_idle show ?thesis by (simp add: process_task_def)
  next
    case (Cons x rest)
    show ?thesis
    proof (cases x)
      case None
      with st W_idle Cons exit_inv [OF inv i W_idle] show ?thesis by (simp add: process_task_def)
    next
      case (Some t)
      obtain a where t: "t = Task a" by (cases t)
      from st W_idle Cons Some t pop_inv [OF inv i W_idle, of a rest] show ?thesis
        by (simp add: process_task_def)
    qed
  qed
next
  case (W_running t)
  obtain a where t: "t = Task a" by (cases t)
  from st W_running t exec_inv [OF inv i, of a] show ?thesis by (simp add: process_task_def)
next
  case (W_ran t)
  obtain a where t: "t = Task a" by (cases t)
  from W_ran t have "0 < ran s a" using ran_pos [OF i] by simp
  with live_of_count [OF engine_invD(5) [OF inv], of a] obtain j where j: "heap s a = Some j" by auto
  from st W_ran t j dec_inv [OF inv i _ j] show ?thesis by (simp add: process_task_def)
next
  case W_exited
  with st show ?thesis by (simp add: process_task_def)
qed

lemma process_after_done_simps [simp]:
  "heap (process_after_done a s) = heap s" "drivers (process_after_done a s) = drivers s"
  "threads (process_after_done a s) = threads s"
  "m_tasks_queue (process_after_done a s) = m_tasks_queue s"
  "task_runs (process_after_done a s) = task_runs s"
  "hook_runs (process_after_done a s) = (hook_runs s)(a := hook_runs s a + 1)"
  "queued (process_after_done a s) = queued s" "running (process_after_done a s) = running s"
  "ran (process_after_done a s) = ran s" "activations (process_after_done a s) = activations s"
  by (simp_all add: process_after_done_def queued_def running_def ran_def activations_def fun_eq_iff)

lemma process_job_inv:
  assumes inv: "engine_inv L s" and d: "d < length (drivers s)" and st: "process_job d s = Returns s'"
  shows "engine_inv L s'"
proof -
  note invs = engine_invD [OF inv]
  define a where "a = d_job (drivers s ! d)"
  from drivers_invD [OF invs(1) d] obtain j where j: "heap s a = Some j"
    and p: "pc_inv s a j (d_pc (drivers s ! d))" by (auto simp: a_def)
  have triv: "heap s = (heap s)(a \<mapsto> j)" using j by (simp add: map_upd_triv)
  note cnt = count_invD [OF invs(4) j]
  note step = driver_step_inv [OF inv d a_def [symmetric]]
  show ?thesis
  proof (cases "d_pc (drivers s ! d)")
    case (D_process k)
    show ?thesis
    proof (cases k)
      case 0
      let ?s1 = "s\<lparr>heap := (heap s)(a \<mapsto> set_all_tasks_pushed j)\<rparr>"
      have "engine_inv L (set_dpc d D_wait ?s1)"
        using D_process 0 p cnt
        by (intro step [where j' = "set_all_tasks_pushed j"]) (simp_all add: pc_inv_def)
      with st D_process 0 j show ?thesis by (simp add: process_job_def a_def [symmetric])
    next
      case (Suc k')
      let ?s1 = "s\<lparr>heap := (heap s)(a \<mapsto> inc_task_count j),
                 m_tasks_queue := m_tasks_queue s @ [Some (Task a)]\<rparr>"
      have q: "\<And>b. queued ?s1 b = queued s b + (if b = a then 1 else 0)"
        by (simp add: queued_def)
      have "engine_inv L (set_dpc d (D_process k') ?s1)"
        using D_process Suc p cnt
        by (intro step [where j' = "inc_task_count j"]) (simp_all add: pc_inv_def q)
      with st D_process Suc j show ?thesis
        by (auto simp: process_job_def a_def [symmetric] push_task_def and_then_def
            split: if_splits)
    qed
  next
    case D_wait
    have "m_running_tasks j = 0 \<Longrightarrow> engine_inv L (set_dpc d D_hook s)"
      using D_wait p cnt triv by (intro step [where j' = j]) (simp_all add: pc_inv_def)
    with st D_wait j show ?thesis
      by (auto simp: process_job_def a_def [symmetric] split: if_splits)
  next
    case D_hook
    have "engine_inv L (set_dpc d D_set_done (process_after_done a s))"
      using D_hook p cnt triv by (intro step [where j' = j]) (auto simp: pc_inv_def)
    with st D_hook j show ?thesis by (simp add: process_job_def a_def [symmetric])
  next
    case D_set_done
    let ?s1 = "s\<lparr>heap := (heap s)(a \<mapsto> j\<lparr>m_is_done := True\<rparr>)\<rparr>"
    have "engine_inv L (set_dpc d D_finished ?s1)"
      using D_set_done p cnt
      by (intro step [where j' = "j\<lparr>m_is_done := True\<rparr>"]) (simp_all add: pc_inv_def)
    with st D_set_done j show ?thesis by (simp add: process_job_def a_def [symmetric])
  next
    case D_finished
    with st j show ?thesis by (simp add: process_job_def a_def [symmetric])
  qed
qed

lemma no_driver_iff_activations:
  "activations s a = 0 \<Longrightarrow> no_driver s a"
  by (auto simp: activations_def no_driver_def count_list_0_iff)

lemma start_driver_simps [simp]:
  "heap (start_driver a n s) = heap s" "threads (start_driver a n s) = threads s"
  "m_tasks_queue (start_driver a n s) = m_tasks_queue s"
  "task_runs (start_driver a n s) = task_runs s" "hook_runs (start_driver a n s) = hook_runs s"
  "queued (start_driver a n s) = queued s" "running (start_driver a n s) = running s"
  "ran (start_driver a n s) = ran s"
  "activations (start_driver a n s) b = activations s b + (if b = a then 1 else 0)"
  by (simp_all add: start_driver_def queued_def running_def ran_def activations_def fun_eq_iff)

lemma drivers_start_driver:
  "drivers (start_driver a n s) = drivers s @ [\<lparr>d_job = a, d_pc = D_process n\<rparr>]"
  by (simp add: start_driver_def)

text \<open>A new activation of a job that has no active driver.\<close>
lemma start_inv:
  assumes inv: "engine_inv L s" and j: "heap s a = Some j" and nd: "no_driver s a"
    and fr: "heap s1 = (heap s)(a \<mapsto> j')" "drivers s1 = drivers s" "threads s1 = threads s"
      "m_tasks_queue s1 = m_tasks_queue s" "task_runs s1 = task_runs s" "hook_runs s1 = hook_runs s"
    and j': "m_running_tasks j' = m_running_tasks j" "n_tasks j' = n_tasks j" "\<not> m_is_done j'"
      "\<not> m_is_all_task_pushed j'"
  shows "engine_inv L (start_driver a (n_tasks j) s1)"
proof -
  let ?s' = "start_driver a (n_tasks j) s1"
  note invs = engine_invD [OF inv]
  have obs: "queued s1 = queued s" "running s1 = running s" "ran s1 = ran s"
    "activations s1 = activations s" "no_driver s1 = no_driver s"
    using fr by (simp_all add: queued_def running_def ran_def activations_def no_driver_def fun_eq_iff)
  from invs(3) j nd have idle: "m_running_tasks j = 0" "hook_runs s a = activations s a"
    "task_runs s a = activations s a * n_tasks j"
    by (auto simp: idle_inv_def)
  from count_invD [OF invs(4) j] idle(1) have zero: "queued s a = 0" "running s a = 0" "ran s a = 0"
    "L a = 0" by simp_all
  have len: "length (drivers ?s') = Suc (length (drivers s))"
    by (simp add: fr drivers_start_driver)
  have old: "\<And>d. d < length (drivers s) \<Longrightarrow> drivers ?s' ! d = drivers s ! d"
    by (simp add: fr nth_append drivers_start_driver)
  have new: "drivers ?s' ! length (drivers s) = \<lparr>d_job = a, d_pc = D_process (n_tasks j)\<rparr>"
    by (simp add: fr nth_append drivers_start_driver)
  have "drivers_inv ?s'"
  proof (rule drivers_invI)
    fix d assume "d < length (drivers ?s')"
    then consider "d < length (drivers s)" | "d = length (drivers s)" using len by linarith
    then show "\<exists>j. heap ?s' (d_job (drivers ?s' ! d)) = Some j \<and>
          pc_inv ?s' (d_job (drivers ?s' ! d)) j (d_pc (drivers ?s' ! d))"
    proof cases
      case 1
      from drivers_invD [OF invs(1) 1] obtain jd where jd: "heap s (d_job (drivers s ! d)) = Some jd"
        and p: "pc_inv s (d_job (drivers s ! d)) jd (d_pc (drivers s ! d))" by auto
      show ?thesis
      proof (cases "d_job (drivers s ! d) = a")
        case True
        with nd 1 have "d_pc (drivers s ! d) = D_finished" by (simp add: no_driver_def)
        with True show ?thesis by (simp add: old [OF 1] fr pc_inv_def)
      next
        case False
        then have "pc_inv ?s' (d_job (drivers s ! d)) = pc_inv s (d_job (drivers s ! d))"
          by (simp add: fun_eq_iff pc_inv_def fr obs split: dpc.splits)
        with jd p False show ?thesis by (simp add: old [OF 1] fr)
      qed
    next
      case 2
      then show ?thesis using idle zero j' by (simp add: new fr pc_inv_def obs)
    qed
  qed
  moreover have "one_driver ?s'"
    unfolding one_driver_def
  proof (intro allI impI)
    fix d d'
    assume h: "d < length (drivers ?s') \<and> d' < length (drivers ?s') \<and>
        d_job (drivers ?s' ! d) = d_job (drivers ?s' ! d') \<and>
        d_pc (drivers ?s' ! d) \<noteq> D_finished \<and> d_pc (drivers ?s' ! d') \<noteq> D_finished"
    then consider "d < length (drivers s)" "d' < length (drivers s)"
      | "d = length (drivers s)" "d' = length (drivers s)"
      | "d < length (drivers s)" "d' = length (drivers s)"
      | "d = length (drivers s)" "d' < length (drivers s)"
      using len by linarith
    then show "d = d'"
    proof cases
      case 1
      with h have "d_job (drivers s ! d) = d_job (drivers s ! d')"
        "d_pc (drivers s ! d) \<noteq> D_finished" "d_pc (drivers s ! d') \<noteq> D_finished"
        by (simp_all add: old)
      with 1 invs(2) show ?thesis unfolding one_driver_def by blast
    next
      case 2
      then show ?thesis by simp
    next
      case 3
      with h nd show ?thesis by (auto simp: old new no_driver_def)
    next
      case 4
      with h nd show ?thesis by (auto simp: old new no_driver_def)
    qed
  qed
  moreover have "idle_inv ?s'"
    unfolding idle_inv_def
  proof (intro allI impI)
    fix b jb assume h: "heap ?s' b = Some jb \<and> no_driver ?s' b"
    have "b \<noteq> a"
    proof
      assume "b = a"
      with h have "d_pc (drivers ?s' ! length (drivers s)) = D_finished"
        unfolding no_driver_def using len new by (metis driver.select_convs(1) lessI)
      then show False by (simp add: new)
    qed
    moreover from h have "no_driver s b"
      unfolding no_driver_def using len old by (metis less_Suc_eq)
    moreover from h \<open>b \<noteq> a\<close> have "heap s b = Some jb" by (simp add: fr)
    ultimately show "m_running_tasks jb = 0 \<and> hook_runs ?s' b = activations ?s' b \<and>
        task_runs ?s' b = activations ?s' b * n_tasks jb \<and>
        (m_is_done jb \<longleftrightarrow> activations ?s' b \<noteq> 0) \<and>
        (m_is_all_task_pushed jb \<longleftrightarrow> activations ?s' b \<noteq> 0)"
      using invs(3) unfolding idle_inv_def by (simp add: fr obs)
  qed
  moreover have "count_inv L ?s'"
    unfolding count_inv_def
  proof (intro allI impI)
    fix b jb assume h: "heap ?s' b = Some jb"
    show "queued ?s' b + running ?s' b + ran ?s' b + L b \<le> m_running_tasks jb"
    proof (cases "b = a")
      case True
      with h zero j' idle(1) show ?thesis by (simp add: fr obs)
    next
      case False
      with h have "heap s b = Some jb" by (simp add: fr)
      from count_invD [OF invs(4) this] show ?thesis by (simp add: obs)
    qed
  qed
  moreover have "dead_inv L ?s'"
    using invs(5) unfolding dead_inv_def by (simp add: fr obs)
  ultimately show ?thesis by (simp add: engine_inv_def)
qed

text \<open>A change of a job object that keeps its counter, its flags and its payload.\<close>
lemma job_frame_inv:
  assumes inv: "engine_inv L s" and j: "heap s a = Some j"
    and j': "m_running_tasks j' = m_running_tasks j" "n_tasks j' = n_tasks j"
      "m_is_done j' = m_is_done j" "m_is_all_task_pushed j' = m_is_all_task_pushed j"
  shows "engine_inv L (s\<lparr>heap := (heap s)(a \<mapsto> j')\<rparr>)"
proof -
  let ?s' = "s\<lparr>heap := (heap s)(a \<mapsto> j')\<rparr>"
  note invs = engine_invD [OF inv]
  have pci: "\<And>b pc. pc_inv ?s' b = pc_inv s b"
    by (simp add: fun_eq_iff pc_inv_def split: dpc.splits)
  have pcj: "\<And>pc. pc_inv s a j' pc = pc_inv s a j pc"
    by (simp add: pc_inv_def j' split: dpc.splits)
  have "drivers_inv ?s'"
  proof (rule drivers_invI)
    fix d assume "d < length (drivers ?s')"
    then have dl: "d < length (drivers s)" by simp
    from drivers_invD [OF invs(1) dl] j show "\<exists>j. heap ?s' (d_job (drivers ?s' ! d)) = Some j \<and>
          pc_inv ?s' (d_job (drivers ?s' ! d)) j (d_pc (drivers ?s' ! d))"
      by (auto simp: pci pcj)
  qed
  moreover have "one_driver ?s'" using invs(2) by simp
  moreover have "idle_inv ?s'"
    using invs(3) j j' unfolding idle_inv_def by auto
  moreover have "count_inv L ?s'"
    using invs(4) j j' unfolding count_inv_def by auto
  moreover have "dead_inv L ?s'"
    using invs(5) unfolding dead_inv_def by simp
  ultimately show ?thesis by (simp add: engine_inv_def)
qed

lemma new_inv:
  assumes inv: "engine_inv L s" and a: "heap s a = None"
  shows "engine_inv L (s\<lparr>heap := (heap s)(a \<mapsto> Job_ctor n)\<rparr>)"
proof -
  let ?s' = "s\<lparr>heap := (heap s)(a \<mapsto> Job_ctor n)\<rparr>"
  note invs = engine_invD [OF inv]
  from invs(5) a have z: "queued s a = 0" "running s a = 0" "ran s a = 0" "activations s a = 0"
    "task_runs s a = 0" "hook_runs s a = 0" "L a = 0" by (simp_all add: dead_inv_def)
  have pci: "\<And>b pc. pc_inv ?s' b = pc_inv s b"
    by (simp add: fun_eq_iff pc_inv_def split: dpc.splits)
  have "drivers_inv ?s'"
  proof (rule drivers_invI)
    fix d assume "d < length (drivers ?s')"
    then have dl: "d < length (drivers s)" by simp
    from drivers_invD [OF invs(1) dl] a show "\<exists>j. heap ?s' (d_job (drivers ?s' ! d)) = Some j \<and>
          pc_inv ?s' (d_job (drivers ?s' ! d)) j (d_pc (drivers ?s' ! d))"
      by (auto simp: pci)
  qed
  moreover have "one_driver ?s'" using invs(2) by simp
  moreover have "idle_inv ?s'"
    using invs(3) z unfolding idle_inv_def by (auto simp: Job_ctor_def)
  moreover have "count_inv L ?s'"
    using invs(4) z unfolding count_inv_def by (auto simp: Job_ctor_def)
  moreover have "dead_inv L ?s'"
    using invs(5) unfolding dead_inv_def by simp
  ultimately show ?thesis by (simp add: engine_inv_def)
qed

lemma returned_Some [simp]: "returned r = Some x \<longleftrightarrow> r = Returns x"
  by (cases r) (simp_all add: returned_def)

lemma and_then_Returns:
  "and_then r f = Returns y \<longleftrightarrow> (\<exists>x. r = Returns x \<and> f x = Returns y)"
  by (cases r) (simp_all add: and_then_def)

lemma join_Returns:
  "join i s = Returns s' \<longleftrightarrow>
     joined (threads s ! i) = 0 \<and> wpc (threads s ! i) = W_exited \<and>
     s' = s\<lparr>threads := (threads s)[i := (threads s ! i)\<lparr>joined := 1\<rparr>]\<rparr>"
  by (auto simp: join_def)

lemma join_all_frame:
  "join_all is s = Returns s' \<Longrightarrow>
   heap s' = heap s \<and> drivers s' = drivers s \<and> m_tasks_queue s' = m_tasks_queue s \<and>
   task_runs s' = task_runs s \<and> hook_runs s' = hook_runs s \<and> m_max_tasks s' = m_max_tasks s \<and>
   m_tasks s' = m_tasks s \<and> terminating s' = terminating s \<and> m_jobs_map s' = m_jobs_map s \<and>
   map wpc (threads s') = map wpc (threads s)"
proof (induction "is" arbitrary: s)
  case Nil
  then show ?case by simp
next
  case (Cons i "is")
  from Cons.prems obtain s1 where 1: "join i s = Returns s1" and 2: "join_all is s1 = Returns s'"
    by (auto simp: and_then_Returns)
  from 1 have "map wpc (threads s1) = map wpc (threads s)"
    by (cases "i < length (threads s)")
      (auto simp: join_Returns map_update list_update_same_conv list_update_beyond)
  with 1 Cons.IH [OF 2] show ?case by (auto simp: join_Returns)
qed

lemma step_engine_inv:
  assumes inv: "engine_inv L s" and st: "step e s = Some s'"
  shows "engine_inv L s'"
proof (cases e)
  case (E_new a n)
  with st new_inv [OF inv, of a n] show ?thesis by (auto simp: step_def split: if_splits)
next
  case (E_push_job a)
  from st E_push_job obtain j where j: "heap s a = Some j"
    by (cases "heap s a") (auto simp: step_def push_job_def returned_def split: if_splits)
  show ?thesis
  proof (cases "m_jobs_map s a")
    case (Some p)
    with st E_push_job j job_frame_inv [OF inv j, of "set_conveyor j"] show ?thesis
      by (auto simp: step_def push_job_def Let_def)
  next
    case None
    with st E_push_job have act: "activations s a = 0" by (auto simp: step_def split: if_splits)
    then have nd: "no_driver s a" by (rule no_driver_iff_activations)
    with engine_invD(3) [OF inv] j act have fl: "\<not> m_is_done j" "\<not> m_is_all_task_pushed j"
      by (auto simp: idle_inv_def)
    let ?s1 = "s\<lparr>heap := (heap s)(a \<mapsto> set_conveyor j), m_jobs_map := (m_jobs_map s)(a \<mapsto> a)\<rparr>"
    have "engine_inv L (start_driver a (n_tasks j) ?s1)"
      using fl by (intro start_inv [OF inv j nd, where j' = "set_conveyor j"]) simp_all
    with st E_push_job j None act show ?thesis
      by (auto simp: step_def push_job_def Let_def)
  qed
next
  case (E_restart_job a)
  from st E_restart_job obtain j where j: "heap s a = Some j" and dn: "m_is_done j"
    by (cases "heap s a") (auto simp: step_def is_done_def split: if_splits)
  have nd: "no_driver s a"
    unfolding no_driver_def
  proof (intro allI impI)
    fix d assume d: "d < length (drivers s)" and a: "d_job (drivers s ! d) = a"
    from drivers_invD [OF engine_invD(1) [OF inv] d] a j dn
    show "d_pc (drivers s ! d) = D_finished"
      by (cases "d_pc (drivers s ! d)") (auto simp: pc_inv_def)
  qed
  let ?s1 = "s\<lparr>heap := (heap s)(a \<mapsto> reset j)\<rparr>"
  have "engine_inv L (start_driver a (n_tasks j) ?s1)"
    by (intro start_inv [OF inv j nd, where j' = "reset j"]) simp_all
  with st E_restart_job j dn inv show ?thesis
    by (auto simp: step_def restart_job_def is_done_def split: if_splits)
next
  case (E_pop_job a)
  have "engine_inv L (fst (pop_job s a))"
    by (rule engine_inv_shrink [OF inv]) (simp_all add: pop_job_def split: option.splits)
  with st E_pop_job show ?thesis by (simp add: step_def)
next
  case (E_driver d)
  with st process_job_inv [OF inv, of d s'] show ?thesis by (auto simp: step_def split: if_splits)
next
  case (E_worker i)
  with st process_task_inv [OF inv, of i s'] show ?thesis by (auto simp: step_def split: if_splits)
next
  case E_terminate_begin
  have "engine_inv L ((terminate_locked s)\<lparr>terminating := True\<rparr>)"
    by (rule engine_inv_shrink [OF inv]) (simp_all add: terminate_locked_def queued_def)
  with st E_terminate_begin show ?thesis by (auto simp: step_def split: if_splits)
next
  case E_terminate_end
  with st obtain s1 where 1: "join_all (m_tasks s) s = Returns s1"
    and 2: "s' = (terminate_clear s1)\<lparr>terminating := False\<rparr>"
    by (auto simp: step_def and_then_Returns split: if_splits)
  note fr = join_all_frame [OF 1]
  show ?thesis unfolding 2
    by (rule engine_inv_shrink [OF inv])
      (simp_all add: terminate_clear_def fr queued_def running_def ran_def fun_eq_iff)
qed

lemma run_invariant:
  assumes "P s0" and "\<And>e s s'. P s \<Longrightarrow> step e s = Some s' \<Longrightarrow> P s'" and "run es s0 = Some s"
  shows "P s"
  using assms(1,3)
proof (induction es arbitrary: s0)
  case Nil
  then show ?case by simp
next
  case (Cons e es)
  then show ?case using assms(2) by (auto split: option.splits)
qed

lemma spawn_workers_fields:
  "heap (spawn_workers k s) = heap s" "drivers (spawn_workers k s) = drivers s"
  "m_tasks_queue (spawn_workers k s) = m_tasks_queue s" "task_runs (spawn_workers k s) = task_runs s"
  "hook_runs (spawn_workers k s) = hook_runs s" "m_max_tasks (spawn_workers k s) = m_max_tasks s"
  "terminating (spawn_workers k s) = terminating s" "m_jobs_map (spawn_workers k s) = m_jobs_map s"
  by (induction k arbitrary: s) (simp_all add: emplace_back_thread_def)

lemma init_engine_inv:
  assumes "init task_threads max_tasks hardware_concurrency = Returns s0"
  shows "engine_inv (\<lambda>_. 0) s0"
proof -
  from assms obtain k where s0: "s0 = spawn_workers k (empty_engine (unat max_tasks))"
    by (auto simp: init_def Let_def split: if_splits)
  have th: "map wpc (threads s0) = replicate k W_idle"
    by (simp add: s0 threads_spawn_workers empty_engine_def)
  have fields: "heap s0 = Map.empty" "drivers s0 = []" "m_tasks_queue s0 = []"
    "task_runs s0 = (\<lambda>_. 0)" "hook_runs s0 = (\<lambda>_. 0)"
    by (simp_all add: s0 spawn_workers_fields empty_engine_def)
  have "count_list (replicate k W_idle) x = 0" if "x \<noteq> W_idle" for x
    using that by (simp add: count_list_0_iff)
  then show ?thesis
    by (simp add: engine_inv_def drivers_inv_def one_driver_def idle_inv_def count_inv_def
        dead_inv_def fields queued_def running_def ran_def activations_def th)
qed

lemma reachable_invariant:
  assumes "reachable s"
    and "\<And>task_threads max_tasks hardware_concurrency s0.
          init task_threads max_tasks hardware_concurrency = Returns s0 \<Longrightarrow> P s0"
    and "\<And>e s s'. P s \<Longrightarrow> step e s = Some s' \<Longrightarrow> P s'"
  shows "P s"
  using assms unfolding reachable_def by (blast intro: run_invariant [where P = P])

lemma reachable_engine_inv: "reachable s \<Longrightarrow> engine_inv (\<lambda>_. 0) s"
  by (erule reachable_invariant) (auto intro: init_engine_inv step_engine_inv)

section \<open>Reachable states\<close>

lemma run_append:
  "run (es @ es') s = (case run es s of None \<Rightarrow> None | Some s1 \<Rightarrow> run es' s1)"
  by (induction es arbitrary: s) (auto split: option.splits)

lemma reachableI:
  "init task_threads max_tasks hardware_concurrency = Returns s0 \<Longrightarrow> run es s0 = Some s \<Longrightarrow>
   reachable s"
  unfolding reachable_def by blast

lemma reachable_run:
  assumes "reachable s" and "run es s = Some s'"
  shows "reachable s'"
proof -
  from assms(1) obtain tt mt hc s0 es0 where i: "init tt mt hc = Returns s0"
    and r: "run es0 s0 = Some s" by (auto simp: reachable_def)
  from r assms(2) have "run (es0 @ es) s0 = Some s'" by (simp add: run_append)
  with i show ?thesis by (rule reachableI)
qed

lemma start_driver_more [simp]:
  "m_max_tasks (start_driver a n s) = m_max_tasks s" "m_tasks (start_driver a n s) = m_tasks s"
  "terminating (start_driver a n s) = terminating s" "m_jobs_map (start_driver a n s) = m_jobs_map s"
  by (simp_all add: start_driver_def)

lemma process_task_frame:
  assumes "process_task i s = Returns s'"
  shows "drivers s' = drivers s \<and> hook_runs s' = hook_runs s \<and> m_max_tasks s' = m_max_tasks s \<and>
    m_tasks s' = m_tasks s \<and> terminating s' = terminating s \<and> m_jobs_map s' = m_jobs_map s \<and>
    length (threads s') = length (threads s) \<and>
    (\<forall>a j. heap s a = Some j \<longrightarrow>
       (\<exists>j'. heap s' a = Some j' \<and> n_tasks j' = n_tasks j \<and> m_is_done j' = m_is_done j \<and>
          m_is_all_task_pushed j' = m_is_all_task_pushed j \<and> m_running_tasks j' \<le> m_running_tasks j)) \<and>
    (\<forall>a. heap s a = None \<longrightarrow> heap s' a = None) \<and>
    (\<forall>a. task_runs s a \<le> task_runs s' a)"
  using assms
  by (auto simp: process_task_def Task_process_def split: wpc.splits list.splits option.splits)

lemma process_job_frame:
  assumes "process_job d s = Returns s'"
  shows "map d_job (drivers s') = map d_job (drivers s) \<and> threads s' = threads s \<and>
    m_max_tasks s' = m_max_tasks s \<and> task_runs s' = task_runs s \<and>
    m_tasks s' = m_tasks s \<and> terminating s' = terminating s \<and> m_jobs_map s' = m_jobs_map s \<and>
    (\<forall>a j. heap s a = Some j \<longrightarrow> (\<exists>j'. heap s' a = Some j' \<and> n_tasks j' = n_tasks j)) \<and>
    (\<forall>a. heap s a = None \<longrightarrow> heap s' a = None) \<and>
    (\<forall>a. hook_runs s a \<le> hook_runs s' a)"
  using assms
  by (auto simp: process_job_def push_task_def and_then_Returns Let_def set_dpc_def map_d_job_update
      process_after_done_def
      split: dpc.splits nat.splits option.splits if_splits)

text \<open>What no step takes back: activations, recorded runs, the capacity, and the job
  objects with their payload.\<close>

lemma step_persist:
  assumes "step e s = Some s'"
  shows "activations s a \<le> activations s' a \<and> task_runs s a \<le> task_runs s' a \<and>
    hook_runs s a \<le> hook_runs s' a \<and> m_max_tasks s' = m_max_tasks s \<and>
    (\<forall>j. heap s a = Some j \<longrightarrow> (\<exists>j'. heap s' a = Some j' \<and> n_tasks j' = n_tasks j))"
proof (cases e)
  case (E_driver d)
  with assms have "process_job d s = Returns s'" by (auto simp: step_def split: if_splits)
  from process_job_frame [OF this] show ?thesis
    by (simp add: activations_def)
next
  case (E_worker i)
  with assms have "process_task i s = Returns s'" by (auto simp: step_def split: if_splits)
  from process_task_frame [OF this] show ?thesis
    by (simp add: activations_def) blast
next
  case E_terminate_end
  with assms obtain s1 where 1: "join_all (m_tasks s) s = Returns s1"
    and 2: "s' = (terminate_clear s1)\<lparr>terminating := False\<rparr>"
    by (auto simp: step_def and_then_Returns split: if_splits)
  from join_all_frame [OF 1] show ?thesis
    by (simp add: 2 terminate_clear_def activations_def)
qed (use assms in \<open>auto simp: step_def push_job_def restart_job_def pop_job_def Let_def
      terminate_locked_def split: if_splits option.splits\<close>)

lemma run_persist:
  assumes "run es s = Some s'"
  shows "activations s a \<le> activations s' a \<and> task_runs s a \<le> task_runs s' a \<and>
    hook_runs s a \<le> hook_runs s' a \<and> m_max_tasks s' = m_max_tasks s \<and>
    (\<forall>j. heap s a = Some j \<longrightarrow> (\<exists>j'. heap s' a = Some j' \<and> n_tasks j' = n_tasks j))"
  using assms
proof (induction es arbitrary: s)
  case Nil
  then show ?case by simp
next
  case (Cons e es)
  then obtain s1 where 1: "step e s = Some s1" and 2: "run es s1 = Some s'"
    by (auto split: option.splits)
  from step_persist [OF 1, of a] Cons.IH [OF 2] show ?case by (fastforce intro: le_trans)
qed

text \<open>A job whose \<open>done\<close> flag is set has no driver at work, and its books are closed.\<close>

lemma done_no_driver:
  assumes inv: "engine_inv L s" and j: "heap s a = Some j" and dn: "m_is_done j"
  shows "no_driver s a"
  unfolding no_driver_def
proof (intro allI impI)
  fix d assume d: "d < length (drivers s)" and a: "d_job (drivers s ! d) = a"
  from drivers_invD [OF engine_invD(1) [OF inv] d] a j dn
  show "d_pc (drivers s ! d) = D_finished"
    by (cases "d_pc (drivers s ! d)") (auto simp: pc_inv_def)
qed

lemma done_facts:
  assumes inv: "engine_inv L s" and j: "heap s a = Some j" and dn: "m_is_done j"
  shows "0 < activations s a \<and> task_runs s a = activations s a * n_tasks j \<and>
    hook_runs s a = activations s a \<and> m_running_tasks j = 0"
  using done_no_driver [OF inv j dn] engine_invD(3) [OF inv] j dn
  by (auto simp: idle_inv_def)


section \<open>The example runs, evaluated\<close>

lemmas engine_defs = empty_engine_def emplace_back_thread_def
  step_def push_job_def Let_def returned_def start_driver_def activations_def
  process_job_def push_task_def and_then_def set_dpc_def process_task_def set_wpc_def
  Task_process_def process_after_done_def Job_ctor_def restart_job_def pop_job_def
  terminate_locked_def terminate_clear_def join_def is_done_def
  inc_task_count_def dec_task_count_def set_conveyor_def set_all_tasks_pushed_def reset_def

lemma init_demo: "init 2 0 3 = Returns demo_engine"
  by (simp add: init_def task_threads_count_def demo_engine_def eval_nat_numeral)

lemma demo_done_run: "run demo_schedule demo_engine = Some demo_done"
  by (simp add: demo_done_def demo_schedule_def demo_engine_def engine_defs)

lemma demo_done_fields:
  "heap demo_done 8 = Some job_done" "task_runs demo_done 8 = 2" "hook_runs demo_done 8 = 1"
  "activations demo_done 8 = 1"
  by (simp_all add: demo_done_def demo_schedule_def demo_engine_def engine_defs job_done_def)

lemma reachable_demo_done: "reachable demo_done"
  by (rule reachableI [OF init_demo demo_done_run])

lemma demo_redone_run:
  "run (E_restart_job 8 # demo_restart_schedule) demo_done = Some demo_redone"
  by (simp add: demo_redone_def demo_restart_schedule_def demo_done_def demo_schedule_def
      demo_engine_def engine_defs)

lemma demo_redone_fields:
  "heap demo_redone 8 = Some job_done" "task_runs demo_redone 8 = 4" "hook_runs demo_redone 8 = 2"
  by (simp_all add: demo_redone_def demo_restart_schedule_def demo_done_def demo_schedule_def
      demo_engine_def engine_defs job_done_def)

section \<open>Capacity, the worker pool, and lost tasks\<close>

lemma step_cap_inv:
  assumes "cap_inv s" and "step e s = Some s'"
  shows "cap_inv s'"
proof (cases e)
  case (E_driver d)
  with assms show ?thesis
    by (auto simp: cap_inv_def step_def process_job_def push_task_def and_then_Returns Let_def
        process_after_done_def
        split: dpc.splits nat.splits option.splits if_splits)
next
  case (E_worker i)
  with assms show ?thesis
    by (auto simp: cap_inv_def step_def process_task_def Task_process_def
        split: wpc.splits list.splits option.splits if_splits)
next
  case E_terminate_end
  with assms obtain s1 where 1: "join_all (m_tasks s) s = Returns s1"
    and 2: "s' = (terminate_clear s1)\<lparr>terminating := False\<rparr>"
    by (auto simp: step_def and_then_Returns split: if_splits)
  from join_all_frame [OF 1] show ?thesis
    by (simp add: 2 terminate_clear_def cap_inv_def)
qed (use assms in \<open>auto simp: cap_inv_def step_def push_job_def restart_job_def pop_job_def Let_def
      terminate_locked_def split: if_splits option.splits\<close>)

lemma init_fields:
  assumes "init task_threads max_tasks hardware_concurrency = Returns s0"
  shows "m_max_tasks s0 = unat max_tasks" "m_tasks_queue s0 = []"
  using assms
  by (auto simp: init_def Let_def spawn_workers_fields empty_engine_def split: if_splits)

lemma init_bounded: "init 1 1 4 = Returns bounded_engine"
  by (simp add: init_def task_threads_count_def bounded_engine_def)

lemma bounded_full_run: "run [E_new 8 2, E_push_job 8, E_driver 0] bounded_engine = Some bounded_full"
  by (simp add: bounded_full_def bounded_engine_def engine_defs)

lemma bounded_full_fields:
  "m_tasks_queue bounded_full = [Some (Task 8)]" "threads bounded_full = [\<lparr>wpc = W_idle, joined = 0\<rparr>]"
  "heap bounded_full 8 \<noteq> None"
  by (simp_all add: bounded_full_def bounded_engine_def engine_defs)

lemma join_all_threads:
  assumes "join_all is s = Returns s'" and "distinct is" and "\<forall>i\<in>set is. i < length (threads s)"
  shows "length (threads s') = length (threads s) \<and>
    (\<forall>i\<in>set is. wpc (threads s ! i) = W_exited \<and> joined (threads s ! i) = 0) \<and>
    (\<forall>i<length (threads s). threads s' ! i =
        (if i \<in> set is then (threads s ! i)\<lparr>joined := 1\<rparr> else threads s ! i))"
  using assms
proof (induction "is" arbitrary: s)
  case Nil
  then show ?case by simp
next
  case (Cons i "is")
  from Cons.prems(1) obtain s1 where 1: "join i s = Returns s1" and 2: "join_all is s1 = Returns s'"
    by (auto simp: and_then_Returns)
  from 1 have s1: "threads s1 = (threads s)[i := (threads s ! i)\<lparr>joined := 1\<rparr>]"
    and ex: "wpc (threads s ! i) = W_exited" "joined (threads s ! i) = 0"
    by (auto simp: join_Returns)
  from Cons.prems(2,3) have d: "distinct is" "i \<notin> set is" "i < length (threads s)"
    and l: "\<forall>k\<in>set is. k < length (threads s1)" by (simp_all add: s1)
  have nth1: "threads s1 ! k = (if k = i then (threads s ! i)\<lparr>joined := 1\<rparr> else threads s ! k)"
    if "k < length (threads s)" for k
    using that by (simp add: s1 nth_list_update)
  have len1: "length (threads s1) = length (threads s)" by (simp add: s1)
  note ih = Cons.IH [OF 2 d(1) l]
  have "wpc (threads s ! k) = W_exited \<and> joined (threads s ! k) = 0" if "k \<in> set (i # is)" for k
  proof (cases "k = i")
    case True
    with ex show ?thesis by simp
  next
    case False
    with that have k: "k \<in> set is" by simp
    with l len1 have "k < length (threads s)" by simp
    from ih k have "wpc (threads s1 ! k) = W_exited \<and> joined (threads s1 ! k) = 0" by blast
    with nth1 [OF \<open>k < length (threads s)\<close>] False show ?thesis by simp
  qed
  moreover have "threads s' ! k =
        (if k \<in> set (i # is) then (threads s ! k)\<lparr>joined := 1\<rparr> else threads s ! k)"
    if "k < length (threads s)" for k
    using that ih nth1 [OF that] d(2) len1 by auto
  ultimately show ?case using ih len1 by simp
qed

lemma process_task_pool:
  assumes "process_task i s = Returns s'" and "i < length (threads s)"
  shows "wpc (threads s ! i) \<noteq> W_exited \<and>
     (\<forall>k<length (threads s). joined (threads s' ! k) = joined (threads s ! k))"
  using assms
  by (auto simp: process_task_def set_wpc_def nth_list_update
      split: wpc.splits list.splits option.splits)

lemma step_pool_inv:
  assumes "pool_inv s" and "step e s = Some s'"
  shows "pool_inv s'"
proof (cases e)
  case (E_driver d)
  with assms have "process_job d s = Returns s'" by (auto simp: step_def split: if_splits)
  from process_job_frame [OF this] assms(1) show ?thesis by (simp add: pool_inv_def)
next
  case (E_worker i)
  with assms have st: "process_task i s = Returns s'" and i: "i < length (threads s)"
    by (auto simp: step_def split: if_splits)
  from process_task_pool [OF st i] process_task_frame [OF st] assms(1) i show ?thesis
    by (auto simp: pool_inv_def)
next
  case E_terminate_end
  with assms obtain s1 where 1: "join_all (m_tasks s) s = Returns s1"
    and 2: "s' = (terminate_clear s1)\<lparr>terminating := False\<rparr>"
    by (auto simp: step_def and_then_Returns split: if_splits)
  from assms(1) have "distinct (m_tasks s)" "\<forall>i\<in>set (m_tasks s). i < length (threads s)"
    by (auto simp: pool_inv_def)
  from join_all_threads [OF 1 this] assms(1) show ?thesis
    by (auto simp: 2 terminate_clear_def pool_inv_def)
qed (use assms in \<open>auto simp: pool_inv_def step_def push_job_def restart_job_def pop_job_def Let_def
      terminate_locked_def split: if_splits option.splits\<close>)

lemma m_tasks_spawn_workers:
  "m_tasks (spawn_workers k s) = m_tasks s @ [length (threads s)..<length (threads s) + k]"
proof (induction k arbitrary: s)
  case 0
  then show ?case by simp
next
  case (Suc k)
  show ?case
    by (simp add: Suc.IH emplace_back_thread_def upt_conv_Cons)
qed

lemma init_pool_inv:
  assumes "init task_threads max_tasks hardware_concurrency = Returns s0"
  shows "pool_inv s0"
proof -
  from assms obtain k where s0: "s0 = spawn_workers k (empty_engine (unat max_tasks))"
    by (auto simp: init_def Let_def split: if_splits)
  show ?thesis
    by (simp add: pool_inv_def s0 threads_spawn_workers m_tasks_spawn_workers empty_engine_def)
qed

lemma reachable_pool_inv: "reachable s \<Longrightarrow> pool_inv s"
  by (erule reachable_invariant) (auto intro: init_pool_inv step_pool_inv)

lemma run_worker_exits:
  assumes q: "m_tasks_queue s = None # rest" and i: "i < length (threads s)"
    and live: "\<And>t. wpc (threads s ! i) = W_running t \<or> wpc (threads s ! i) = W_ran t \<Longrightarrow>
        heap s (get_id t) \<noteq> None"
  shows "\<exists>s'. run_worker 3 i s = Returns s' \<and> m_tasks_queue s' = m_tasks_queue s \<and>
    m_tasks s' = m_tasks s \<and> length (threads s') = length (threads s) \<and>
    dom (heap s') = dom (heap s) \<and> threads s' ! i = (threads s ! i)\<lparr>wpc := W_exited\<rparr> \<and>
    (\<forall>k. k \<noteq> i \<longrightarrow> threads s' ! k = threads s ! k)"
proof (cases "wpc (threads s ! i)")
  case W_idle
  with q i show ?thesis
    by (simp add: eval_nat_numeral process_task_def and_then_def set_wpc_def)
next
  case (W_running t)
  with live obtain j where "heap s (get_id t) = Some j" by auto
  with W_running q i show ?thesis
    by (auto simp: eval_nat_numeral process_task_def and_then_def set_wpc_def Task_process_def)
next
  case (W_ran t)
  with live obtain j where "heap s (get_id t) = Some j" by auto
  with W_ran q i show ?thesis
    by (auto simp: eval_nat_numeral process_task_def and_then_def set_wpc_def)
next
  case W_exited
  then have "(threads s ! i)\<lparr>wpc := W_exited\<rparr> = threads s ! i"
    by (metis wthread.surjective wthread.update_convs(1))
  with W_exited show ?thesis by (simp add: eval_nat_numeral)
qed

lemma join_workers_all:
  assumes q: "m_tasks_queue s = None # rest" and d: "distinct is"
    and v: "\<forall>i\<in>set is. i < length (threads s) \<and> joined (threads s ! i) = 0"
    and live: "\<forall>i\<in>set is. \<forall>t. wpc (threads s ! i) = W_running t \<or> wpc (threads s ! i) = W_ran t \<longrightarrow>
        heap s (get_id t) \<noteq> None"
  shows "\<exists>s'. join_workers 3 is s = Returns s' \<and> m_tasks_queue s' = m_tasks_queue s \<and>
    m_tasks s' = m_tasks s \<and> length (threads s') = length (threads s) \<and>
    (\<forall>k<length (threads s). threads s' ! k =
        (if k \<in> set is then \<lparr>wpc = W_exited, joined = 1\<rparr> else threads s ! k))"
  using assms
proof (induction "is" arbitrary: s)
  case Nil
  then show ?case by simp
next
  case (Cons i "is")
  from Cons.prems have i: "i < length (threads s)" "joined (threads s ! i) = 0" "i \<notin> set is"
    by simp_all
  have li: "\<And>t. wpc (threads s ! i) = W_running t \<or> wpc (threads s ! i) = W_ran t \<Longrightarrow>
        heap s (get_id t) \<noteq> None"
    using Cons.prems(4) by auto
  from run_worker_exits [OF Cons.prems(1) i(1) li]
  obtain s1 where r: "run_worker 3 i s = Returns s1" and f1: "m_tasks_queue s1 = m_tasks_queue s"
    "m_tasks s1 = m_tasks s" "length (threads s1) = length (threads s)" "dom (heap s1) = dom (heap s)"
    "threads s1 ! i = (threads s ! i)\<lparr>wpc := W_exited\<rparr>"
    and o1: "\<And>k. k \<noteq> i \<Longrightarrow> threads s1 ! k = threads s ! k"
    by blast
  define s2 where "s2 = s1\<lparr>threads := (threads s1)[i := (threads s1 ! i)\<lparr>joined := 1\<rparr>]\<rparr>"
  have j: "join i s1 = Returns s2"
    using f1 i by (simp add: join_def s2_def)
  have t2: "threads s2 ! k = (if k = i then \<lparr>wpc = W_exited, joined = 1\<rparr> else threads s ! k)"
    if "k < length (threads s)" for k
    using that f1 o1 i by (auto simp: s2_def nth_list_update)
  have f2: "m_tasks_queue s2 = None # rest" "length (threads s2) = length (threads s)"
    "m_tasks s2 = m_tasks s" "heap s2 = heap s1"
    using f1 Cons.prems(1) by (simp_all add: s2_def)
  have v2: "\<forall>k\<in>set is. k < length (threads s2) \<and> joined (threads s2 ! k) = 0"
    using Cons.prems(3) i(3) t2 f2 by auto
  have l2: "\<forall>k\<in>set is. \<forall>t. wpc (threads s2 ! k) = W_running t \<or> wpc (threads s2 ! k) = W_ran t \<longrightarrow>
        heap s2 (get_id t) \<noteq> None"
  proof (intro ballI allI impI)
    fix k t assume k: "k \<in> set is" and w: "wpc (threads s2 ! k) = W_running t \<or> wpc (threads s2 ! k) = W_ran t"
    from k Cons.prems(3) have kl: "k < length (threads s)" by simp
    from k i(3) have "k \<noteq> i" by auto
    with t2 [OF kl] w have "wpc (threads s ! k) = W_running t \<or> wpc (threads s ! k) = W_ran t" by simp
    with Cons.prems(4) k have "heap s (get_id t) \<noteq> None" by auto
    then have "get_id t \<in> dom (heap s1)" using f1(4) by auto
    then show "heap s2 (get_id t) \<noteq> None" using f2(4) by auto
  qed
  from Cons.prems(2) have "distinct is" by simp
  from Cons.IH [OF f2(1) this v2 l2]
  obtain s' where r': "join_workers 3 is s2 = Returns s'" and f': "m_tasks_queue s' = m_tasks_queue s2"
    "m_tasks s' = m_tasks s2" "length (threads s') = length (threads s2)"
    and t': "\<forall>k<length (threads s2). threads s' ! k =
        (if k \<in> set is then \<lparr>wpc = W_exited, joined = 1\<rparr> else threads s2 ! k)"
    by (auto simp del: join_workers.simps)
  have "join_workers 3 (i # is) s = Returns s'"
    using r j r' by (simp add: and_then_def del: run_worker.simps)
  moreover have "threads s' ! k =
        (if k \<in> set (i # is) then \<lparr>wpc = W_exited, joined = 1\<rparr> else threads s ! k)"
    if "k < length (threads s)" for k
    using that t' t2 [OF that] f2(2) by auto
  ultimately show ?case using f' f2 Cons.prems(1) by (auto simp del: join_workers.simps)
qed

lemma live_thread_task:
  assumes inv: "engine_inv L s" and i: "i < length (threads s)"
    and w: "wpc (threads s ! i) = W_running t \<or> wpc (threads s ! i) = W_ran t"
  shows "heap s (get_id t) \<noteq> None"
proof -
  obtain a where t: "t = Task a" by (cases t)
  from w t running_pos [OF i, of a] ran_pos [OF i, of a]
  have "0 < running s a \<or> 0 < ran s a" by auto
  with live_of_count [OF engine_invD(5) [OF inv], of a] t show ?thesis by auto
qed

lemma terminate_locked_simps [simp]:
  "heap (terminate_locked s) = heap s" "drivers (terminate_locked s) = drivers s"
  "threads (terminate_locked s) = threads s" "task_runs (terminate_locked s) = task_runs s"
  "hook_runs (terminate_locked s) = hook_runs s" "m_tasks (terminate_locked s) = m_tasks s"
  "m_max_tasks (terminate_locked s) = m_max_tasks s" "m_jobs_map (terminate_locked s) = m_jobs_map s"
  "terminating (terminate_locked s) = terminating s" "m_tasks_queue (terminate_locked s) = [None]"
  "queued (terminate_locked s) a = 0" "running (terminate_locked s) = running s"
  "ran (terminate_locked s) = ran s" "activations (terminate_locked s) = activations s"
  "no_driver (terminate_locked s) = no_driver s" "one_driver (terminate_locked s) = one_driver s"
  by (simp_all add: terminate_locked_def queued_def running_def ran_def activations_def
      no_driver_def one_driver_def fun_eq_iff)

lemma terminate_locked_inv:
  assumes inv: "engine_inv L s"
  shows "engine_inv (\<lambda>a. L a + queued s a) ((terminate_locked s)\<lparr>terminating := True\<rparr>)"
proof -
  let ?s' = "(terminate_locked s)\<lparr>terminating := True\<rparr>"
  note invs = engine_invD [OF inv]
  have pc: "pc_inv ?s' = pc_inv s"
    by (simp add: fun_eq_iff pc_inv_def split: dpc.splits)
  have "drivers_inv ?s'"
  proof (rule drivers_invI)
    fix d assume "d < length (drivers ?s')"
    then have "d < length (drivers s)" by simp
    from drivers_invD [OF invs(1) this] show "\<exists>j. heap ?s' (d_job (drivers ?s' ! d)) = Some j \<and>
         pc_inv ?s' (d_job (drivers ?s' ! d)) j (d_pc (drivers ?s' ! d))"
      by (simp add: pc)
  qed
  moreover have "one_driver ?s'" using invs(2) by simp
  moreover have "idle_inv ?s'" using invs(3) by (simp add: idle_inv_def)
  moreover have "count_inv (\<lambda>a. L a + queued s a) ?s'"
    unfolding count_inv_def
  proof (intro allI impI)
    fix b jb assume "heap ?s' b = Some jb"
    then have "heap s b = Some jb" by simp
    from count_invD [OF invs(4) this]
    show "queued ?s' b + running ?s' b + ran ?s' b + (L b + queued s b) \<le> m_running_tasks jb"
      by simp
  qed
  moreover have "dead_inv (\<lambda>a. L a + queued s a) ?s'"
    using invs(5) by (simp add: dead_inv_def)
  ultimately show ?thesis by (simp add: engine_inv_def)
qed

text \<open>A job with lost tasks: its counter is positive, so its driver is at work, before the hook.\<close>
lemma lost_facts:
  assumes inv: "engine_inv L s" and j: "heap s h = Some j" and pos: "0 < L h"
  shows "L h \<le> m_running_tasks j \<and> \<not> m_is_done j \<and> Suc (hook_runs s h) = activations s h \<and>
    (\<forall>d<length (drivers s). d_job (drivers s ! d) = h \<longrightarrow>
       d_pc (drivers s ! d) \<noteq> D_hook \<and> d_pc (drivers s ! d) \<noteq> D_set_done)"
proof -
  note invs = engine_invD [OF inv]
  from count_invD [OF invs(4) j] pos have c: "L h \<le> m_running_tasks j" "0 < m_running_tasks j"
    by simp_all
  have "\<not> no_driver s h" using invs(3) j c(2) by (auto simp: idle_inv_def)
  then obtain d where d: "d < length (drivers s)" "d_job (drivers s ! d) = h"
    "d_pc (drivers s ! d) \<noteq> D_finished" by (auto simp: no_driver_def)
  from drivers_invD [OF invs(1) d(1)] d(2,3) j c(2)
  have 1: "\<not> m_is_done j \<and> Suc (hook_runs s h) = activations s h"
    by (cases "d_pc (drivers s ! d)") (auto simp: pc_inv_def)
  have "d_pc (drivers s ! d') \<noteq> D_hook \<and> d_pc (drivers s ! d') \<noteq> D_set_done"
    if "d' < length (drivers s)" "d_job (drivers s ! d') = h" for d'
    using drivers_invD [OF invs(1) that(1)] that(2) j c(2)
    by (cases "d_pc (drivers s ! d')") (auto simp: pc_inv_def)
  with c(1) 1 show ?thesis by blast
qed

lemma step_activations:
  assumes "step e s = Some s'"
  shows "activations s' h = activations s h \<or> (e = E_push_job h \<and> activations s h = 0) \<or>
    (e = E_restart_job h \<and> (\<exists>j. heap s h = Some j \<and> m_is_done j))"
proof (cases e)
  case (E_driver d)
  with assms have "process_job d s = Returns s'" by (auto simp: step_def split: if_splits)
  from process_job_frame [OF this] show ?thesis by (simp add: activations_def)
next
  case (E_worker i)
  with assms have "process_task i s = Returns s'" by (auto simp: step_def split: if_splits)
  from process_task_frame [OF this] show ?thesis by (simp add: activations_def)
next
  case E_terminate_end
  with assms obtain s1 where 1: "join_all (m_tasks s) s = Returns s1"
    and 2: "s' = (terminate_clear s1)\<lparr>terminating := False\<rparr>"
    by (auto simp: step_def and_then_Returns split: if_splits)
  from join_all_frame [OF 1] show ?thesis
    by (simp add: 2 terminate_clear_def activations_def)
qed (use assms in \<open>auto simp: step_def push_job_def restart_job_def pop_job_def Let_def
      terminate_locked_def is_done_def split: if_splits option.splits\<close>)

lemma process_job_no_producer:
  assumes "process_job d s = Returns s'" and "d < length (drivers s)" and "\<not> producing s h"
    and "heap s h = Some j"
  shows "\<not> producing s' h \<and> (\<exists>j'. heap s' h = Some j' \<and> m_running_tasks j' = m_running_tasks j)"
proof (cases "d_job (drivers s ! d) = h")
  case True
  with assms(2,3) have np: "\<And>m. d_pc (drivers s ! d) \<noteq> D_process m" by (auto simp: producing_def)
  with assms(1,2,4) True have 1: "\<exists>j'. heap s' h = Some j' \<and> m_running_tasks j' = m_running_tasks j"
    by (cases "d_pc (drivers s ! d)") (auto simp: process_job_def Let_def process_after_done_def split: if_splits)
  have "\<not> producing s' h"
    using assms(1,2,3,4) True np
    by (cases "d_pc (drivers s ! d)")
      (auto simp: process_job_def Let_def process_after_done_def producing_def set_dpc_def
        nth_list_update split: if_splits)
  with 1 show ?thesis by simp
next
  case False
  with assms show ?thesis
    by (auto simp: process_job_def Let_def process_after_done_def producing_def set_dpc_def
        push_task_def and_then_Returns nth_list_update
        split: if_splits dpc.splits nat.splits option.splits)
qed

lemma step_no_producer:
  assumes "step e s = Some s'" and "\<not> producing s h" and "heap s h = Some j"
    and "activations s' h = activations s h"
  shows "\<not> producing s' h \<and> (\<exists>j'. heap s' h = Some j' \<and> m_running_tasks j' \<le> m_running_tasks j)"
proof (cases e)
  case (E_driver d)
  with assms have "process_job d s = Returns s'" "d < length (drivers s)"
    by (auto simp: step_def split: if_splits)
  from process_job_no_producer [OF this assms(2,3)] show ?thesis by auto
next
  case (E_worker i)
  with assms have "process_task i s = Returns s'" by (auto simp: step_def split: if_splits)
  from process_task_frame [OF this] assms(2,3) show ?thesis by (fastforce simp: producing_def)
next
  case E_terminate_end
  with assms obtain s1 where 1: "join_all (m_tasks s) s = Returns s1"
    and 2: "s' = (terminate_clear s1)\<lparr>terminating := False\<rparr>"
    by (auto simp: step_def and_then_Returns split: if_splits)
  from join_all_frame [OF 1] assms(2,3) show ?thesis
    by (simp add: 2 terminate_clear_def producing_def)
next
  case (E_push_job a)
  with assms show ?thesis
    by (auto simp: step_def push_job_def Let_def producing_def drivers_start_driver nth_append
        split: if_splits option.splits)
next
  case (E_restart_job a)
  with assms show ?thesis
    by (auto simp: step_def restart_job_def Let_def producing_def drivers_start_driver nth_append
        split: if_splits option.splits)
qed (use assms in \<open>auto simp: step_def pop_job_def Let_def producing_def
      terminate_locked_def split: if_splits option.splits\<close>)

lemma demo_queued_run:
  "run [E_new 8 2, E_push_job 8, E_driver 0, E_driver 0, E_driver 0] demo_engine = Some demo_queued"
  by (simp add: demo_queued_def demo_engine_def engine_defs)

lemma demo_queued_fields:
  "heap demo_queued 8 = Some \<lparr>m_is_all_task_pushed = True, m_is_done = False, m_conveyor = True,
     m_running_tasks = 2, n_tasks = 2\<rparr>"
  "queued demo_queued 8 = 2" "\<not> terminating demo_queued" "\<not> producing demo_queued 8"
  "hook_runs demo_queued 8 = 0"
  by (simp_all add: demo_queued_def demo_engine_def engine_defs queued_def producing_def
      less_Suc_eq)

lemma demo_lost_run:
  "run [E_terminate_begin, E_worker 0, E_worker 1, E_terminate_end] demo_queued = Some demo_lost"
  by (simp add: demo_lost_def demo_queued_def demo_engine_def engine_defs)

text \<open>
  The counter is never decremented at 0: a worker that stands before
  \<open>dec_task_count\<close> finds the counter of its task's job positive. This is what allows the
  \<open>atomic_ulong\<close> to be read as a natural number.
\<close>

lemma dec_never_at_zero:
  assumes "reachable s" and "i < length (threads s)" and "wpc (threads s ! i) = W_ran task"
  shows "\<exists>j. heap s (get_id task) = Some j \<and> 0 < m_running_tasks j"
proof -
  have inv: "engine_inv (\<lambda>_. 0) s" using assms(1) by (rule reachable_engine_inv)
  obtain a where t: "task = Task a" by (cases task)
  from assms(3) t have pos: "0 < ran s a" using ran_pos [OF assms(2)] by simp
  with live_of_count [OF engine_invD(5) [OF inv], of a] obtain j where j: "heap s a = Some j" by auto
  from count_invD [OF engine_invD(4) [OF inv] j] pos have "0 < m_running_tasks j" by simp
  with j t show ?thesis by simp
qed

text \<open>
  While a thread is inside \<open>terminate\<close>, between the release of the queue mutex and the
  end of the joins, the terminator stays at the front of the queue whatever the drivers
  and the other workers do, so every worker that has not left its loop can take a step,
  and each step brings it closer to the exit: the joins of \<open>terminate\<close> end in every
  interleaving, not only in the one \<open>join_workers\<close> follows.
\<close>

lemma step_term_inv:
  assumes "term_inv s" and "step e s = Some s'"
  shows "term_inv s'"
proof (cases e)
  case (E_driver d)
  with assms show ?thesis
    by (auto simp: term_inv_def step_def process_job_def push_task_def and_then_Returns Let_def
        process_after_done_def
        split: dpc.splits nat.splits option.splits if_splits)
next
  case (E_worker i)
  with assms show ?thesis
    by (auto simp: term_inv_def step_def process_task_def Task_process_def
        split: wpc.splits list.splits option.splits if_splits)
next
  case E_terminate_end
  with assms obtain s1 where 1: "join_all (m_tasks s) s = Returns s1"
    and 2: "s' = (terminate_clear s1)\<lparr>terminating := False\<rparr>"
    by (auto simp: step_def and_then_Returns split: if_splits)
  show ?thesis by (simp add: 2 term_inv_def)
qed (use assms in \<open>auto simp: term_inv_def step_def push_job_def restart_job_def pop_job_def Let_def
      split: if_splits option.splits\<close>)

lemma reachable_term_inv: "reachable s \<Longrightarrow> term_inv s"
proof (erule reachable_invariant)
  fix task_threads max_tasks hardware_concurrency s0
  assume "init task_threads max_tasks hardware_concurrency = Returns s0"
  then show "term_inv s0"
    by (auto simp: init_def Let_def term_inv_def spawn_workers_fields empty_engine_def
        split: if_splits)
qed (rule step_term_inv)

lemma workers_leave_during_terminate:
  assumes "reachable s" and "terminating s" and "i < length (threads s)"
    and "wpc (threads s ! i) \<noteq> W_exited"
  shows "\<exists>s'. process_task i s = Returns s' \<and> step (E_worker i) s = Some s' \<and> terminating s' \<and>
    Suc (steps_to_exit (wpc (threads s' ! i))) = steps_to_exit (wpc (threads s ! i)) \<and>
    (\<forall>k. k \<noteq> i \<longrightarrow> threads s' ! k = threads s ! k)"
proof -
  have inv: "engine_inv (\<lambda>_. 0) s" using assms(1) by (rule reachable_engine_inv)
  from reachable_term_inv [OF assms(1)] assms(2) obtain rest where q: "m_tasks_queue s = None # rest"
    by (auto simp: term_inv_def)
  show ?thesis
  proof (cases "wpc (threads s ! i)")
    case W_idle
    with q assms(2,3) show ?thesis
      by (simp add: process_task_def step_def steps_to_exit_def set_wpc_def)
  next
    case (W_running t)
    with assms(2,3) show ?thesis
      by (simp add: process_task_def step_def steps_to_exit_def set_wpc_def Task_process_def)
  next
    case (W_ran t)
    from live_thread_task [OF inv assms(3), of t] W_ran obtain j where "heap s (get_id t) = Some j"
      by auto
    with W_ran assms(2,3) show ?thesis
      by (simp add: process_task_def step_def steps_to_exit_def set_wpc_def)
  next
    case W_exited
    with assms(4) show ?thesis by simp
  qed
qed


section \<open>Null handles, and the example runs of the older header\<close>

lemmas header_defs = engine_h_def is_job_tasks_queue_empty_def check_job_is_done_h_def
  wait_job_tasks_done_def push_task_h_def process_task_h_def push_job_h_def set_dpc_h_def
  process_job_h_def step_h_def Job_ctor_h_def Let_def returned_def and_then_def

lemma in_flight_run: "run in_flight_schedule demo_engine = Some in_flight"
  by (simp add: in_flight_def in_flight_schedule_def demo_engine_def engine_defs)

lemma in_flight_h_run: "run_h in_flight_schedule (engine_h 2 0) = Some in_flight_h"
  by (simp add: in_flight_h_def in_flight_schedule_def header_defs eval_nat_numeral)

lemma early_done_h_run: "run_h [E_driver 0, E_driver 0] in_flight_h = Some early_done_h"
  by (simp add: early_done_h_def in_flight_h_def in_flight_schedule_def header_defs eval_nat_numeral)

lemma in_flight_facts:
  "wpc (threads in_flight ! 0) = W_running (Task 8)" "m_tasks_queue in_flight = []"
  "check_job_is_done in_flight 8 = Returns False" "step (E_driver 0) in_flight = None"
  by (simp_all add: in_flight_def in_flight_schedule_def demo_engine_def engine_defs
      check_job_is_done_def get_task_count_def)

lemma in_flight_h_facts:
  "threads_h in_flight_h ! 0 = W_running_h (Task_h False 8)" "m_tasks_queue_h in_flight_h = []"
  "check_job_is_done_h in_flight_h 8 = True"
  by (simp_all add: in_flight_h_def in_flight_schedule_def header_defs eval_nat_numeral)

lemma early_done_h_facts:
  "threads_h early_done_h ! 0 = W_running_h (Task_h False 8)"
  "map_option m_is_done_h (heap_h early_done_h 8) = Some True"
  "task_runs_h early_done_h 8 = 0" "hook_runs_h early_done_h 8 = 0"
  by (simp_all add: early_done_h_def in_flight_h_def in_flight_schedule_def header_defs eval_nat_numeral)

lemma step_null_inv:
  assumes "null_inv s" and "step e s = Some s'"
  shows "null_inv s'"
proof (cases e)
  case (E_driver d)
  with assms have "process_job d s = Returns s'" by (auto simp: step_def split: if_splits)
  from process_job_frame [OF this] assms(1) show ?thesis by (simp add: null_inv_def)
next
  case (E_worker i)
  with assms have "process_task i s = Returns s'" by (auto simp: step_def split: if_splits)
  from process_task_frame [OF this] assms(1) show ?thesis by (simp add: null_inv_def)
next
  case E_terminate_end
  with assms obtain s1 where 1: "join_all (m_tasks s) s = Returns s1"
    and 2: "s' = (terminate_clear s1)\<lparr>terminating := False\<rparr>"
    by (auto simp: step_def and_then_Returns split: if_splits)
  from join_all_frame [OF 1] assms(1) show ?thesis
    by (simp add: 2 terminate_clear_def null_inv_def)
next
  case (E_push_job a)
  show ?thesis
  proof (cases "a = nullptr")
    case True
    with assms E_push_job show ?thesis
      by (simp add: null_inv_def step_def push_job_def returned_def split: if_splits)
  next
    case False
    with assms E_push_job show ?thesis
      by (auto simp: null_inv_def step_def push_job_def Let_def split: if_splits option.splits)
  qed
qed (use assms in \<open>auto simp: null_inv_def step_def restart_job_def pop_job_def Let_def
      terminate_locked_def split: if_splits option.splits\<close>)

lemma reachable_null_inv: "reachable s \<Longrightarrow> null_inv s"
proof (erule reachable_invariant)
  fix task_threads max_tasks hardware_concurrency s0
  assume "init task_threads max_tasks hardware_concurrency = Returns s0"
  then show "null_inv s0"
    by (auto simp: init_def Let_def null_inv_def spawn_workers_fields empty_engine_def
        split: if_splits)
qed (rule step_null_inv)

lemma demo_registered_run: "run [E_new 8 2, E_push_job 8] demo_engine = Some demo_registered"
  by (simp add: demo_registered_def demo_engine_def engine_defs)

lemma demo_registered_fields:
  "heap demo_registered 8 = Some \<lparr>m_is_all_task_pushed = False, m_is_done = False, m_conveyor = True,
     m_running_tasks = 0, n_tasks = 2\<rparr>"
  "drivers demo_registered = [\<lparr>d_job = 8, d_pc = D_process 2\<rparr>]"
  by (simp_all add: demo_registered_def demo_engine_def engine_defs)

lemma demo_hook_run: "run (take 12 demo_schedule) demo_engine = Some demo_hook"
  by (simp add: demo_hook_def demo_schedule_def demo_engine_def engine_defs)

lemma demo_hook_fields:
  "heap demo_hook 8 = Some \<lparr>m_is_all_task_pushed = True, m_is_done = False, m_conveyor = True,
     m_running_tasks = 0, n_tasks = 2\<rparr>"
  "drivers demo_hook = [\<lparr>d_job = 8, d_pc = D_hook\<rparr>]" "task_runs demo_hook 8 = 2"
  "hook_runs demo_hook 8 = 0"
  by (simp_all add: demo_hook_def demo_schedule_def demo_engine_def engine_defs)

lemma demo_unsubmitted_run: "run [E_new 8 2] demo_engine = Some demo_unsubmitted"
  by (simp add: demo_unsubmitted_def demo_engine_def engine_defs)

lemma demo_popped_run:
  "run [E_new 8 2, E_push_job 8, E_driver 0, E_pop_job 8] demo_engine = Some demo_popped"
  by (simp add: demo_popped_def demo_engine_def engine_defs)

section \<open>The claims\<close>



text \<open>
  C5. \<open>restart_job\<close> on a completed job: afterwards the job's outstanding-task counter
  is 0 and its \<open>all submitted\<close> and \<open>done\<close> flags are false (\<open>reset()\<close> clears the two
  flags; the counter of a completed job is 0 already), and a new driver stands at the
  start of the job's \<open>process()\<close>. A \<open>wait_job_done\<close> issued after the restart blocks,
  and in whatever later state it returns, the hook has run again and another \<open>n_tasks\<close>
  task executions have completed: it waits for the new activation.
\<close>

theorem restart_job_completed:
  assumes "reachable s" and "heap s h = Some j" and "h \<noteq> nullptr" and "is_done j"
  shows "\<exists>s' j'. restart_job s h = Returns s' \<and> heap s' h = Some j' \<and>
    m_running_tasks j' = 0 \<and> \<not> m_is_all_task_pushed j' \<and> \<not> m_is_done j' \<and>
    drivers s' = drivers s @ [\<lparr>d_job = h, d_pc = D_process (n_tasks j)\<rparr>] \<and>
    wait_job_done s' h = Blocks \<and>
    (\<forall>es s''. run es s' = Some s'' \<and> wait_job_done s'' h = Returns () \<longrightarrow>
       hook_runs s h < hook_runs s'' h \<and> task_runs s h + n_tasks j \<le> task_runs s'' h)"
proof -
  have inv: "engine_inv (\<lambda>_. 0) s" using assms(1) by (rule reachable_engine_inv)
  from assms(4) have dn: "m_is_done j" by (simp add: is_done_def)
  from done_facts [OF inv assms(2) dn]
  have idle: "m_running_tasks j = 0" "hook_runs s h = activations s h"
    "task_runs s h = activations s h * n_tasks j"
    by simp_all
  define s' where "s' = start_driver h (n_tasks j) (s\<lparr>heap := (heap s)(h \<mapsto> reset j)\<rparr>)"
  have r: "restart_job s h = Returns s'"
    using assms(2,3) by (simp add: restart_job_def s'_def)
  have st: "step (E_restart_job h) s = Some s'"
    using assms(2,4) r by (simp add: step_def)
  have h': "heap s' h = Some (reset j)" by (simp add: s'_def)
  have act: "activations s' h = Suc (activations s h)" by (simp add: s'_def)
  have later: "hook_runs s h < hook_runs s'' h \<and> task_runs s h + n_tasks j \<le> task_runs s'' h"
    if run: "run es s' = Some s''" and w: "wait_job_done s'' h = Returns ()" for es s''
  proof -
    from st run have "run (E_restart_job h # es) s = Some s''" by simp
    with assms(1) have "reachable s''" by (rule reachable_run)
    then have inv'': "engine_inv (\<lambda>_. 0) s''" by (rule reachable_engine_inv)
    from run_persist [OF run, of h] h' obtain j'' where j'': "heap s'' h = Some j''"
      and n: "n_tasks j'' = n_tasks j" and a: "activations s' h \<le> activations s'' h"
      by auto
    from w j'' assms(3) have "m_is_done j''"
      by (simp add: wait_job_done_def is_done_def split: if_splits)
    from done_facts [OF inv'' j'' this]
    have "task_runs s'' h = activations s'' h * n_tasks j''" "hook_runs s'' h = activations s'' h"
      by simp_all
    moreover from a act have "Suc (activations s h) \<le> activations s'' h" by simp
    then have "Suc (activations s h) * n_tasks j \<le> activations s'' h * n_tasks j"
      by (rule mult_le_mono1)
    ultimately show ?thesis using idle n a act by simp
  qed
  from later have L: "\<forall>es s''. run es s' = Some s'' \<and> wait_job_done s'' h = Returns () \<longrightarrow>
       hook_runs s h < hook_runs s'' h \<and> task_runs s h + n_tasks j \<le> task_runs s'' h"
    by blast
  have drv: "drivers s' = drivers s @ [\<lparr>d_job = h, d_pc = D_process (n_tasks j)\<rparr>]"
    by (simp add: s'_def drivers_start_driver)
  have w': "wait_job_done s' h = Blocks"
    using assms(3) h' by (simp add: wait_job_done_def is_done_def)
  from r h' idle(1) L drv w' show ?thesis
    by (intro exI [of _ s'] exI [of _ "reset j"]) simp
qed

theorem restart_job_completed_witness:
  "is_done job_done \<and> hook_runs demo_done 8 < hook_runs demo_redone 8 \<and>
   task_runs demo_done 8 + n_tasks job_done \<le> task_runs demo_redone 8 \<and>
   wait_job_done demo_redone 8 = Returns ()"
proof -
  have d: "is_done job_done" by (simp add: is_done_def job_done_def)
  from restart_job_completed [OF reachable_demo_done demo_done_fields(1) _ d]
  obtain s' where r: "restart_job demo_done 8 = Returns s'"
    and l: "\<forall>es s''. run es s' = Some s'' \<and> wait_job_done s'' 8 = Returns () \<longrightarrow>
       hook_runs demo_done 8 < hook_runs s'' 8 \<and>
       task_runs demo_done 8 + n_tasks job_done \<le> task_runs s'' 8"
    by auto
  have st: "step (E_restart_job 8) demo_done = Some s'"
    using r d by (simp add: step_def demo_done_fields)
  have run: "run demo_restart_schedule s' = Some demo_redone"
    using demo_redone_run st by simp
  have w: "wait_job_done demo_redone 8 = Returns ()"
    by (simp add: demo_redone_fields wait_job_done_def is_done_def job_done_def)
  from l run w d show ?thesis by blast
qed

text \<open>
  C4. With capacity \<open>C = max_tasks > 0\<close> the queue never holds more than \<open>C\<close> entries,
  in any state the engine reaches. \<open>push_task\<close> blocks exactly when the capacity is
  not 0 and the queue holds \<open>C\<close> entries (so with capacity 0 it never blocks); once a
  worker has popped the front task, the push goes through and appends at the back. (The
  model lets the waiting thread go on in any state in which the predicate of its
  \<open>m_task_done.wait\<close> holds; when it is woken is below the model.)
\<close>

theorem queue_capacity:
  assumes "init task_threads max_tasks hardware_concurrency = Returns s0" and "run es s0 = Some s"
  shows "m_max_tasks s = unat max_tasks \<and>
    (max_tasks \<noteq> 0 \<longrightarrow> length (m_tasks_queue s) \<le> unat max_tasks) \<and>
    (push_task s t = Blocks \<longleftrightarrow> max_tasks \<noteq> 0 \<and> length (m_tasks_queue s) = unat max_tasks) \<and>
    (\<forall>i t' rest j. i < length (threads s) \<and> wpc (threads s ! i) = W_idle \<and>
        m_tasks_queue s = Some t' # rest \<and> heap s (get_id t) = Some j \<longrightarrow>
        (\<exists>s' s''. process_task i s = Returns s' \<and> push_task s' t = Returns s'' \<and>
           m_tasks_queue s'' = rest @ [Some t]))"
proof -
  from init_fields [OF assms(1)] have "cap_inv s0" by (simp add: cap_inv_def)
  then have cap: "cap_inv s"
    using step_cap_inv assms(2) by (rule run_invariant)
  from run_persist [OF assms(2)] init_fields(1) [OF assms(1)]
  have m: "m_max_tasks s = unat max_tasks" by simp
  have z: "unat max_tasks \<noteq> 0 \<longleftrightarrow> max_tasks \<noteq> 0" by (simp add: unat_eq_0)
  have blocks: "push_task s t = Blocks \<longleftrightarrow> max_tasks \<noteq> 0 \<and> length (m_tasks_queue s) = unat max_tasks"
    using m z by (auto simp: push_task_def split: option.splits)
  have pop: "\<exists>s' s''. process_task i s = Returns s' \<and> push_task s' t = Returns s'' \<and>
           m_tasks_queue s'' = rest @ [Some t]"
    if "i < length (threads s)" "wpc (threads s ! i) = W_idle"
      "m_tasks_queue s = Some t' # rest" "heap s (get_id t) = Some j" for i t' rest j
    using that cap by (auto simp: process_task_def push_task_def cap_inv_def)
  from cap m z blocks pop show ?thesis by (simp add: cap_inv_def)
qed

theorem queue_capacity_witness:
  "length (m_tasks_queue bounded_full) = 1 \<and> push_task bounded_full (Task 8) = Blocks \<and>
   step (E_driver 0) bounded_full = None \<and>
   (\<exists>s' s''. process_task 0 bounded_full = Returns s' \<and> push_task s' (Task 8) = Returns s'' \<and>
      m_tasks_queue s'' = [Some (Task 8)])"
proof -
  note q = queue_capacity [OF init_bounded bounded_full_run, of "Task 8"]
  from q have b: "push_task bounded_full (Task 8) = Blocks" by (simp add: bounded_full_fields)
  from bounded_full_fields(3) obtain j where j: "heap bounded_full (get_id (Task 8)) = Some j" by auto
  from q j have "\<exists>s' s''. process_task 0 bounded_full = Returns s' \<and> push_task s' (Task 8) = Returns s'' \<and>
      m_tasks_queue s'' = [] @ [Some (Task 8)]"
    by (simp add: bounded_full_fields)
  moreover have "step (E_driver 0) bounded_full = None"
    by (simp add: bounded_full_def bounded_engine_def engine_defs)
  ultimately show ?thesis using b by (simp add: bounded_full_fields)
qed

text \<open>
  C6. \<open>terminate\<close>, from any state the engine reaches, returns: every worker leaves its
  loop within three of its own steps once the terminator is at the front, so no join
  blocks. Afterwards the queue is empty, no handle is left, and every worker thread has
  left \<open>process_task\<close> and has been joined exactly once (\<open>join\<close> on a handle that was
  joined before fails with \<open>invalid_argument\<close>, and \<open>terminate\<close> does not fail). A
  second \<open>terminate\<close>, such as the destructor's, returns the very same state: no join,
  no change.
\<close>

theorem terminate_joins_once:
  assumes "reachable s"
  shows "\<exists>s'. terminate s = Returns s' \<and> m_tasks_queue s' = [] \<and> m_tasks s' = [] \<and>
     length (threads s') = length (threads s) \<and>
     (\<forall>i<length (threads s'). wpc (threads s' ! i) = W_exited \<and> joined (threads s' ! i) = 1) \<and>
     terminate s' = Returns s'"
proof -
  have inv: "engine_inv (\<lambda>_. 0) s" using assms by (rule reachable_engine_inv)
  have pool: "pool_inv s" using assms by (rule reachable_pool_inv)
  let ?s1 = "terminate_locked s"
  have q: "m_tasks_queue ?s1 = None # []" by (simp add: terminate_locked_def)
  have f1: "threads ?s1 = threads s" "heap ?s1 = heap s" "m_tasks ?s1 = m_tasks s"
    by (simp_all add: terminate_locked_def)
  have d: "distinct (m_tasks ?s1)" using pool by (auto simp: pool_inv_def f1)
  have v: "\<forall>i\<in>set (m_tasks ?s1). i < length (threads ?s1) \<and> joined (threads ?s1 ! i) = 0"
    using pool by (auto simp: pool_inv_def f1)
  have live: "\<forall>i\<in>set (m_tasks ?s1). \<forall>t.
      wpc (threads ?s1 ! i) = W_running t \<or> wpc (threads ?s1 ! i) = W_ran t \<longrightarrow>
        heap ?s1 (get_id t) \<noteq> None"
    using v live_thread_task [OF inv] by (auto simp: f1)
  from join_workers_all [OF q d v live]
  obtain s2 where j: "join_workers 3 (m_tasks ?s1) ?s1 = Returns s2"
    and f2: "m_tasks s2 = m_tasks s" "length (threads s2) = length (threads s)"
    and t2: "\<forall>k<length (threads s). threads s2 ! k =
        (if k \<in> set (m_tasks s) then \<lparr>wpc = W_exited, joined = 1\<rparr> else threads s ! k)"
    by (auto simp: f1 simp del: join_workers.simps)
  define s' where "s' = terminate_clear s2"
  have t: "terminate s = Returns s'"
    using j by (simp add: terminate_def and_then_def s'_def f1)
  have f': "m_tasks_queue s' = []" "m_tasks s' = []" "length (threads s') = length (threads s)"
    "threads s' = threads s2"
    using f2 by (simp_all add: s'_def terminate_clear_def)
  have ex: "wpc (threads s' ! i) = W_exited \<and> joined (threads s' ! i) = 1"
    if "i < length (threads s')" for i
    using that t2 pool f' by (auto simp: pool_inv_def)
  have "terminate_clear (terminate_locked s') = s'"
    using f'(1,2) by (simp add: terminate_clear_def terminate_locked_def)
  then have again: "terminate s' = Returns s'"
    using f'(2) by (simp add: terminate_def and_then_def terminate_locked_def)
  from t f' ex again show ?thesis by blast
qed

lemma demo_busy_run:
  "run [E_new 8 2, E_push_job 8, E_driver 0, E_driver 0, E_worker 0] demo_engine = Some demo_busy"
  by (simp add: demo_busy_def demo_engine_def engine_defs)

lemma demo_busy_fields:
  "map wpc (threads demo_busy) = [W_running (Task 8), W_idle]"
  "m_tasks_queue demo_busy = [Some (Task 8)]"
  by (simp_all add: demo_busy_def demo_engine_def engine_defs)

theorem terminate_joins_once_witness:
  "wpc (threads demo_busy ! 0) = W_running (Task 8) \<and> m_tasks_queue demo_busy = [Some (Task 8)] \<and>
   (\<exists>s'. terminate demo_busy = Returns s' \<and> m_tasks_queue s' = [] \<and> m_tasks s' = [] \<and>
      length (threads s') = 2 \<and>
      wpc (threads s' ! 0) = W_exited \<and> joined (threads s' ! 0) = 1 \<and>
      wpc (threads s' ! 1) = W_exited \<and> joined (threads s' ! 1) = 1 \<and>
      terminate s' = Returns s')"
proof -
  have r: "reachable demo_busy" by (rule reachableI [OF init_demo demo_busy_run])
  have l: "length (threads demo_busy) = 2"
    using arg_cong [OF demo_busy_fields(1), of length] by simp
  have w: "wpc (threads demo_busy ! 0) = W_running (Task 8)"
    using arg_cong [OF demo_busy_fields(1), of "\<lambda>xs. xs ! 0"] l by simp
  from terminate_joins_once [OF r] obtain s' where s': "terminate demo_busy = Returns s'"
    "m_tasks_queue s' = []" "m_tasks s' = []" "length (threads s') = length (threads demo_busy)"
    "\<forall>i<length (threads s'). wpc (threads s' ! i) = W_exited \<and> joined (threads s' ! i) = 1"
    "terminate s' = Returns s'"
    by blast
  from s'(4,5) l have "wpc (threads s' ! 0) = W_exited \<and> joined (threads s' ! 0) = 1"
    "wpc (threads s' ! 1) = W_exited \<and> joined (threads s' ! 1) = 1"
    by simp_all
  with s' l w demo_busy_fields(2) show ?thesis by auto
qed

text \<open>
  C10. The locked section of \<open>terminate\<close> empties the queue and leaves every job
  object, so every counter, as it was. For a job with \<open>k > 0\<close> tasks in the queue at
  that moment, in every state the engine reaches afterwards: the counter is at least
  \<open>k\<close> (hence never 0), the \<open>done\<close> flag is not set, \<open>process_after_done\<close> has not run
  again, \<open>wait_job_done\<close> blocks, and a driver of the job at the wait in
  \<open>wait_until_all_tasks_done\<close> cannot go on. When the \<open>k\<close> queued tasks were all that
  was outstanding (counter \<open>k\<close>) and the job's \<open>process()\<close> had returned, the counter
  stays exactly \<open>k\<close>.
\<close>

theorem terminate_keeps_counters:
  assumes "reachable s" and "\<not> terminating s" and "heap s h = Some j" and "h \<noteq> nullptr"
    and "queued s h = k" and "0 < k"
  shows "heap (terminate_locked s) = heap s \<and> m_tasks_queue (terminate_locked s) = [None] \<and>
    (\<forall>es s'. run (E_terminate_begin # es) s = Some s' \<longrightarrow>
       (\<exists>j'. heap s' h = Some j' \<and> k \<le> m_running_tasks j' \<and> \<not> m_is_done j' \<and>
          hook_runs s' h = hook_runs s h \<and> wait_job_done s' h = Blocks \<and>
          (\<forall>d<length (drivers s'). d_job (drivers s' ! d) = h \<and> d_pc (drivers s' ! d) = D_wait \<longrightarrow>
             process_job d s' = Blocks) \<and>
          (m_running_tasks j = k \<and> \<not> producing s h \<longrightarrow> m_running_tasks j' = k)))"
proof -
  define L where "L = (\<lambda>a. queued s a)"
  define s1 where "s1 = (terminate_locked s)\<lparr>terminating := True\<rparr>"
  have st: "step E_terminate_begin s = Some s1" using assms(2) by (simp add: step_def s1_def)
  have "engine_inv (\<lambda>_. 0) s" using assms(1) by (rule reachable_engine_inv)
  from terminate_locked_inv [OF this] have inv1: "engine_inv L s1" by (simp add: L_def s1_def)
  have Lh: "0 < L h" "L h = k" using assms(5,6) by (simp_all add: L_def)
  have h1: "heap s1 h = Some j" using assms(3) by (simp add: s1_def)
  have obs1: "hook_runs s1 h = hook_runs s h" "activations s1 h = activations s h"
    "producing s1 h = producing s h"
    by (simp_all add: s1_def producing_def)
  note lf1 = lost_facts [OF inv1 h1 Lh(1)]
  define P where "P = (\<lambda>s'. engine_inv L s' \<and> activations s' h = activations s h \<and>
      (\<exists>j'. heap s' h = Some j' \<and>
         (m_running_tasks j = k \<and> \<not> producing s h \<longrightarrow> \<not> producing s' h \<and> m_running_tasks j' \<le> k)))"
  have P1: "P s1" using inv1 h1 obs1 by (simp add: P_def)
  have Pstep: "P s3" if p: "P s2" and e: "step e s2 = Some s3" for e s2 s3
  proof -
    from p obtain j2 where inv2: "engine_inv L s2" and a2: "activations s2 h = activations s h"
      and j2: "heap s2 h = Some j2"
      and n2: "m_running_tasks j = k \<and> \<not> producing s h \<longrightarrow> \<not> producing s2 h \<and> m_running_tasks j2 \<le> k"
      by (auto simp: P_def)
    have inv3: "engine_inv L s3" using inv2 e by (rule step_engine_inv)
    from lost_facts [OF inv2 j2 Lh(1)] step_activations [OF e, of h] j2
    have a3: "activations s3 h = activations s2 h" by auto
    from step_persist [OF e, of h] j2 obtain j3 where j3: "heap s3 h = Some j3" by auto
    have "\<not> producing s3 h \<and> m_running_tasks j3 \<le> k" if "m_running_tasks j = k \<and> \<not> producing s h"
      using step_no_producer [OF e _ j2 a3] n2 that j3 by auto
    with inv3 a3 a2 j3 show ?thesis by (simp add: P_def)
  qed
  have later: "\<exists>j'. heap s' h = Some j' \<and> k \<le> m_running_tasks j' \<and> \<not> m_is_done j' \<and>
          hook_runs s' h = hook_runs s h \<and> wait_job_done s' h = Blocks \<and>
          (\<forall>d<length (drivers s'). d_job (drivers s' ! d) = h \<and> d_pc (drivers s' ! d) = D_wait \<longrightarrow>
             process_job d s' = Blocks) \<and>
          (m_running_tasks j = k \<and> \<not> producing s h \<longrightarrow> m_running_tasks j' = k)"
    if r: "run (E_terminate_begin # es) s = Some s'" for es s'
  proof -
    from r st have "run es s1 = Some s'" by simp
    with P1 Pstep have "P s'" by (rule run_invariant)
    then obtain j' where inv': "engine_inv L s'" and a': "activations s' h = activations s h"
      and j': "heap s' h = Some j'"
      and n': "m_running_tasks j = k \<and> \<not> producing s h \<longrightarrow> m_running_tasks j' \<le> k"
      by (auto simp: P_def)
    note lf = lost_facts [OF inv' j' Lh(1)]
    from lf Lh(2) have c: "k \<le> m_running_tasks j'" "\<not> m_is_done j'" by simp_all
    from lf lf1 a' obs1 have hk: "hook_runs s' h = hook_runs s h" by simp
    have w: "wait_job_done s' h = Blocks"
      using assms(4) j' c(2) by (simp add: wait_job_done_def is_done_def)
    have b: "process_job d s' = Blocks"
      if "d < length (drivers s')" "d_job (drivers s' ! d) = h \<and> d_pc (drivers s' ! d) = D_wait" for d
      using that j' c(1) assms(6) by (simp add: process_job_def)
    from j' c hk w b n' show ?thesis by auto
  qed
  then show ?thesis by simp
qed

theorem terminate_keeps_counters_witness:
  "queued demo_queued 8 = 2 \<and>
   (\<exists>j'. heap demo_lost 8 = Some j' \<and> m_running_tasks j' = 2 \<and> \<not> m_is_done j') \<and>
   hook_runs demo_lost 8 = 0 \<and> wait_job_done demo_lost 8 = Blocks"
proof -
  have r: "reachable demo_queued" by (rule reachableI [OF init_demo demo_queued_run])
  have a: "(8::nat) \<noteq> 0" "0 < (2::nat)" by simp_all
  note f = demo_queued_fields
  from terminate_keeps_counters [OF r f(3) f(1) a(1) f(2) a(2)]
  have "\<forall>es s'. run (E_terminate_begin # es) demo_queued = Some s' \<longrightarrow>
       (\<exists>j'. heap s' 8 = Some j' \<and> 2 \<le> m_running_tasks j' \<and> \<not> m_is_done j' \<and>
          hook_runs s' 8 = hook_runs demo_queued 8 \<and> wait_job_done s' 8 = Blocks \<and>
          (\<forall>d<length (drivers s'). d_job (drivers s' ! d) = 8 \<and> d_pc (drivers s' ! d) = D_wait \<longrightarrow>
             process_job d s' = Blocks) \<and>
          (m_running_tasks \<lparr>m_is_all_task_pushed = True, m_is_done = False, m_conveyor = True,
             m_running_tasks = 2, n_tasks = 2\<rparr> = 2 \<and> \<not> producing demo_queued 8 \<longrightarrow>
           m_running_tasks j' = 2))"
    by blast
  with demo_lost_run
  have "\<exists>j'. heap demo_lost 8 = Some j' \<and> 2 \<le> m_running_tasks j' \<and> \<not> m_is_done j' \<and>
          hook_runs demo_lost 8 = hook_runs demo_queued 8 \<and> wait_job_done demo_lost 8 = Blocks \<and>
          (m_running_tasks \<lparr>m_is_all_task_pushed = True, m_is_done = False, m_conveyor = True,
             m_running_tasks = 2, n_tasks = 2\<rparr> = 2 \<and> \<not> producing demo_queued 8 \<longrightarrow>
           m_running_tasks j' = 2)"
    by blast
  with f show ?thesis by auto
qed

text \<open>
  C2. One schedule, run on both versions from engines with two workers: a job with one
  task is submitted, its driver pushes the task and marks all tasks pushed, worker 0
  pops the task and is inside its \<open>process()\<close>. In that state the scan of the older
  header reports the job's tasks done, while the counter check reports work in flight;
  the counter-based driver cannot pass its wait, the scan-based driver passes and sets
  the \<open>done\<close> flag with the task still running, no task run and no hook run recorded.
  In the counter-based engine a set \<open>done\<close> flag always comes with all task runs and
  the hook completed and no task of the job on a worker.
\<close>

theorem scan_check_misses_running_task:
  "init 2 0 3 = Returns demo_engine \<and>
   run in_flight_schedule demo_engine = Some in_flight \<and>
   run_h in_flight_schedule (engine_h 2 0) = Some in_flight_h \<and>
   wpc (threads in_flight ! 0) = W_running (Task 8) \<and>
   threads_h in_flight_h ! 0 = W_running_h (Task_h False 8) \<and>
   check_job_is_done_h in_flight_h 8 = True \<and>
   check_job_is_done in_flight 8 = Returns False \<and>
   step (E_driver 0) in_flight = None \<and>
   run_h [E_driver 0, E_driver 0] in_flight_h = Some early_done_h \<and>
   map_option m_is_done_h (heap_h early_done_h 8) = Some True \<and>
   threads_h early_done_h ! 0 = W_running_h (Task_h False 8) \<and>
   task_runs_h early_done_h 8 = 0 \<and> hook_runs_h early_done_h 8 = 0 \<and>
   (\<forall>s h j. reachable s \<and> heap s h = Some j \<and> m_is_done j \<longrightarrow>
      task_runs s h = activations s h * n_tasks j \<and> hook_runs s h = activations s h \<and>
      running s h = 0 \<and> ran s h = 0)"
proof -
  have "task_runs s h = activations s h * n_tasks j \<and> hook_runs s h = activations s h \<and>
      running s h = 0 \<and> ran s h = 0"
    if "reachable s" "heap s h = Some j" "m_is_done j" for s h j
  proof -
    from that(1) have inv: "engine_inv (\<lambda>_. 0) s" by (rule reachable_engine_inv)
    from done_facts [OF inv that(2,3)] count_invD [OF engine_invD(4) [OF inv] that(2)]
    show ?thesis by simp
  qed
  with init_demo in_flight_run in_flight_h_run in_flight_facts in_flight_h_facts
    early_done_h_run early_done_h_facts
  show ?thesis by blast
qed

theorem scan_check_misses_running_task_witness:
  "m_is_done job_done \<and> task_runs demo_done 8 = activations demo_done 8 * n_tasks job_done \<and>
   hook_runs demo_done 8 = activations demo_done 8 \<and> running demo_done 8 = 0"
proof -
  have d: "m_is_done job_done" by (simp add: job_done_def)
  from scan_check_misses_running_task reachable_demo_done demo_done_fields(1) d
  show ?thesis by blast
qed

text \<open>
  C3, as the code has it. \<open>push_job\<close> of a job whose handle is registered: the
  registry, the drivers, the workers and the queue are as before (only the job's
  \<open>m_conveyor\<close> has been set again), and the caller's \<open>unique_ptr\<close> still holds the
  job. The returned pointer is the job's handle, which is also what a successful
  submission returns; what differs is the caller's \<open>unique_ptr\<close>, empty after a
  success. In the older header the duplicate returns the null pointer, but the job
  object is destroyed and the caller's \<open>unique_ptr\<close> is empty.
\<close>

theorem push_job_registered_handle:
  assumes "heap s job = Some j" and "heap_h sh job = Some jh"
  shows "(m_jobs_map s job \<noteq> None \<longrightarrow>
      (\<exists>s'. push_job s job = Returns (s', job, job) \<and> step (E_push_job job) s = Some s' \<and>
         m_jobs_map s' = m_jobs_map s \<and> drivers s' = drivers s \<and> threads s' = threads s \<and>
         m_tasks_queue s' = m_tasks_queue s \<and> heap s' = (heap s)(job \<mapsto> set_conveyor j))) \<and>
    (m_jobs_map s job = None \<longrightarrow>
      (\<exists>s'. push_job s job = Returns (s', job, nullptr) \<and> m_jobs_map s' = (m_jobs_map s)(job \<mapsto> job) \<and>
         drivers s' = drivers s @ [\<lparr>d_job = job, d_pc = D_process (n_tasks j)\<rparr>])) \<and>
    (m_jobs_map_h sh job \<noteq> None \<longrightarrow>
      (\<exists>sh'. push_job_h sh job = Returns (sh', nullptr, nullptr) \<and> heap_h sh' job = None \<and>
         m_jobs_map_h sh' = m_jobs_map_h sh \<and> drivers_h sh' = drivers_h sh))"
  using assms
  by (auto simp: push_job_def push_job_h_def Let_def step_def returned_def drivers_start_driver)

theorem push_job_registered_handle_witness:
  "m_jobs_map demo_registered 8 \<noteq> None \<and> m_jobs_map_h registered_h 8 \<noteq> None \<and>
   (\<exists>s'. push_job demo_registered 8 = Returns (s', 8, 8) \<and>
      m_jobs_map s' = m_jobs_map demo_registered \<and> drivers s' = drivers demo_registered) \<and>
   (\<exists>sh'. push_job_h registered_h 8 = Returns (sh', nullptr, nullptr) \<and> heap_h sh' 8 = None)"
proof -
  have f: "m_jobs_map demo_registered 8 \<noteq> None"
    by (simp add: demo_registered_def demo_engine_def engine_defs)
  have fh: "m_jobs_map_h registered_h 8 \<noteq> None" "heap_h registered_h 8 \<noteq> None"
    by (simp_all add: registered_h_def header_defs)
  then obtain jh where jh: "heap_h registered_h 8 = Some jh" by auto
  from push_job_registered_handle [OF demo_registered_fields(1) jh] f fh(1)
  show ?thesis by auto
qed

text \<open>
  C3 as stated (a failure that the call reports, with the job handed back) fails
  in both versions: the engine returns the same pointer for a duplicate as for a
  success, and the older header returns 0 with the job destroyed.
\<close>

theorem push_job_registered_handle_counterexample:
  "m_jobs_map demo_registered 8 \<noteq> None \<and> m_jobs_map demo_unsubmitted 8 = None \<and>
   map_option (fst \<circ> snd) (returned (push_job demo_registered 8)) = Some 8 \<and>
   map_option (fst \<circ> snd) (returned (push_job demo_unsubmitted 8)) = Some 8 \<and>
   m_jobs_map_h registered_h 8 \<noteq> None \<and>
   map_option (\<lambda>(sh', ret, own). (ret, own, heap_h sh' 8)) (returned (push_job_h registered_h 8)) =
     Some (nullptr, nullptr, None)"
  by (simp add: demo_registered_def demo_unsubmitted_def demo_engine_def engine_defs
      registered_h_def header_defs)

text \<open>
  C7, as the code has it. For the null handle \<open>restart_job\<close> changes nothing,
  \<open>check_job_is_done\<close> returns true, \<open>wait_job_done\<close> returns at once and \<open>pop_job\<close>
  returns the empty pointer. For a handle that is not registered \<open>pop_job\<close> returns the
  empty pointer and changes nothing. The other three do not look at the registry: on a
  handle that is not null they act on the job object it points to, registered or not
  (\<open>restart_job\<close> resets it and starts a driver, \<open>check_job_is_done\<close> reads its
  counter, \<open>wait_job_done\<close> waits for its flag), and where no job object lives the
  dereference is undefined behaviour (\<open>Fails\<close> in the model).
\<close>

theorem invalid_handles:
  assumes "reachable s"
  shows "restart_job s nullptr = Returns s \<and> check_job_is_done s nullptr = Returns True \<and>
    wait_job_done s nullptr = Returns () \<and> pop_job s nullptr = (s, nullptr) \<and>
    (\<forall>h. m_jobs_map s h = None \<longrightarrow> pop_job s h = (s, nullptr)) \<and>
    (\<forall>h j. h \<noteq> nullptr \<and> heap s h = Some j \<longrightarrow>
       restart_job s h = Returns (start_driver h (n_tasks j) (s\<lparr>heap := (heap s)(h \<mapsto> reset j)\<rparr>)) \<and>
       check_job_is_done s h = Returns (m_running_tasks j = 0) \<and>
       wait_job_done s h = (if m_is_done j then Returns () else Blocks)) \<and>
    (\<forall>h. h \<noteq> nullptr \<and> heap s h = None \<longrightarrow>
       restart_job s h = Fails Invalid_pointer \<and> check_job_is_done s h = Fails Invalid_pointer \<and>
       wait_job_done s h = Fails Invalid_pointer)"
  using reachable_null_inv [OF assms]
  by (simp add: null_inv_def restart_job_def check_job_is_done_def wait_job_done_def pop_job_def
      get_task_count_def is_done_def)

theorem invalid_handles_witness:
  "restart_job demo_done nullptr = Returns demo_done \<and> pop_job demo_done nullptr = (demo_done, nullptr) \<and>
   m_jobs_map demo_unsubmitted 8 = None \<and> pop_job demo_unsubmitted 8 = (demo_unsubmitted, nullptr) \<and>
   heap demo_unsubmitted 9 = None \<and> check_job_is_done demo_unsubmitted 9 = Fails Invalid_pointer"
proof -
  have r: "reachable demo_unsubmitted" by (rule reachableI [OF init_demo demo_unsubmitted_run])
  have f: "m_jobs_map demo_unsubmitted 8 = None" "heap demo_unsubmitted 9 = None"
    by (simp_all add: demo_unsubmitted_def demo_engine_def engine_defs)
  from invalid_handles [OF reachable_demo_done] invalid_handles [OF r] f show ?thesis by simp
qed

text \<open>
  C7 as stated fails for handles that are unknown to the registry but point to a
  job object: for a job constructed and never submitted \<open>wait_job_done\<close> blocks and
  \<open>restart_job\<close> changes the state, and for a job popped while its task is outstanding
  \<open>check_job_is_done\<close> returns false.
\<close>

theorem invalid_handles_counterexample:
  "m_jobs_map demo_unsubmitted 8 = None \<and> wait_job_done demo_unsubmitted 8 = Blocks \<and>
   restart_job demo_unsubmitted 8 \<noteq> Returns demo_unsubmitted \<and>
   m_jobs_map demo_popped 8 = None \<and> check_job_is_done demo_popped 8 = Returns False"
  by (simp add: demo_unsubmitted_def demo_popped_def demo_engine_def engine_defs
      wait_job_done_def check_job_is_done_def get_task_count_def)

text \<open>
  C9. For a handle that is not null, \<open>check_job_is_done\<close> returns whether the job's
  counter is 0, and that says less than \<open>done\<close>: while a driver of the job stands at
  the start of \<open>process()\<close> with all \<open>n_tasks\<close> tasks still to push (the job has just been
  registered or restarted), and while it stands between the wait it has passed and the
  end of the hook (before \<open>process_after_done\<close>, or before \<open>m_is_done.test_and_set\<close>),
  \<open>check_job_is_done\<close> returns true, the \<open>done\<close> flag is false and \<open>wait_job_done\<close>
  blocks.
\<close>

theorem check_job_is_done_reads_counter:
  assumes "reachable s" and "heap s h = Some j" and "h \<noteq> nullptr"
  shows "check_job_is_done s h = Returns (m_running_tasks j = 0) \<and>
    (\<forall>d<length (drivers s).
       d_job (drivers s ! d) = h \<and>
       (d_pc (drivers s ! d) = D_process (n_tasks j) \<or> d_pc (drivers s ! d) = D_hook \<or>
        d_pc (drivers s ! d) = D_set_done) \<longrightarrow>
       check_job_is_done s h = Returns True \<and> \<not> is_done j \<and> wait_job_done s h = Blocks)"
proof -
  have inv: "engine_inv (\<lambda>_. 0) s" using assms(1) by (rule reachable_engine_inv)
  have c: "check_job_is_done s h = Returns (m_running_tasks j = 0)"
    using assms(2,3) by (simp add: check_job_is_done_def get_task_count_def)
  have "check_job_is_done s h = Returns True \<and> \<not> is_done j \<and> wait_job_done s h = Blocks"
    if d: "d < length (drivers s)" and a: "d_job (drivers s ! d) = h"
      and pc: "d_pc (drivers s ! d) = D_process (n_tasks j) \<or> d_pc (drivers s ! d) = D_hook \<or>
        d_pc (drivers s ! d) = D_set_done" for d
  proof -
    from drivers_invD [OF engine_invD(1) [OF inv] d] a assms(2) pc
    have "m_running_tasks j = 0 \<and> \<not> m_is_done j" by (auto simp: pc_inv_def)
    with c assms(2,3) show ?thesis by (simp add: wait_job_done_def is_done_def)
  qed
  with c show ?thesis by blast
qed

theorem check_job_is_done_reads_counter_witness:
  "check_job_is_done demo_registered 8 = Returns True \<and> wait_job_done demo_registered 8 = Blocks \<and>
   d_pc (drivers demo_registered ! 0) = D_process 2 \<and>
   check_job_is_done demo_hook 8 = Returns True \<and> wait_job_done demo_hook 8 = Blocks \<and>
   d_pc (drivers demo_hook ! 0) = D_hook \<and> hook_runs demo_hook 8 = 0"
proof -
  have r1: "reachable demo_registered" by (rule reachableI [OF init_demo demo_registered_run])
  have r2: "reachable demo_hook" by (rule reachableI [OF init_demo demo_hook_run])
  have n: "(8::nat) \<noteq> 0" by simp
  from check_job_is_done_reads_counter [OF r1 demo_registered_fields(1) n]
  have "check_job_is_done demo_registered 8 = Returns True \<and> wait_job_done demo_registered 8 = Blocks"
    by (simp add: demo_registered_fields)
  moreover from check_job_is_done_reads_counter [OF r2 demo_hook_fields(1) n]
  have "check_job_is_done demo_hook 8 = Returns True \<and> wait_job_done demo_hook 8 = Blocks"
    by (simp add: demo_hook_fields)
  ultimately show ?thesis by (simp add: demo_registered_fields demo_hook_fields)
qed

end
